theory Spec2Isabelle
  imports Main "HOL-Library.Word" "HOL-Library.Multiset"
begin

section \<open>The striping encoder of examples/simple-encoder.go\<close>

text \<open>
  The program reads one input file in windows of \<open>dataShards * blockSize\<close> bytes, hands
  every window to the Reed-Solomon codec, shuffles the resulting shards with a fresh
  random arrangement and appends them to the numbered destination files.

  Everything the program does not decide itself is a field of the environment
  \<open>env\<close>: the input file, how many bytes each \<open>Read\<close> delivers, the random draws,
  which \<open>OpenFile\<close> and \<open>Write\<close> calls fail, and the parity arithmetic of the codec.
  Panics of the Go runtime and calls of \<open>os.Exit\<close> are values of \<open>outcome\<close>.
\<close>

subsection \<open>Values, failures and the trace of external calls\<close>

type_synonym byte = "8 word"

datatype panic =
    OpenInputError
  | StatError
  | HashError
  | ReadError
  | MakeSliceLen
  | DivideByZero
  | IndexOutOfRange nat nat

datatype outcome = Returned | Exit nat | Panicked panic

datatype codec_error = ErrInvShardNum | ErrMaxShardNum | ErrShardSize

text \<open>
  One event per call that touches a file or hands a buffer to the codec. \<open>ReadInput s b\<close>
  is the \<open>Read\<close> of stripe \<open>s\<close> that delivered \<open>b\<close> bytes, \<open>CodecSplit s buf\<close> the call
  of \<open>Split\<close> on the buffer \<open>buf\<close>, \<open>OpenDest s i\<close> the \<open>OpenFile\<close> of destination \<open>i\<close>
  in stripe \<open>s\<close>, \<open>WriteDest s i bs ok\<close> the \<open>Write\<close> of the bytes \<open>bs\<close> through that handle
  (\<open>ok\<close> tells whether it succeeded), and \<open>CloseDest i s\<close> the \<open>Close\<close> of the handle of
  destination \<open>i\<close> that was opened in stripe \<open>s\<close>.
\<close>

datatype event =
    OpenInput
  | StatInput
  | HashPass
  | SeekStart
  | ReadInput nat nat
  | CodecSplit nat "byte list"
  | OpenDest nat nat
  | WriteDest nat nat "byte list" bool
  | CloseDest nat nat
  | CloseInput

subsection \<open>Go's 64-bit integers\<close>

text \<open>
  \<open>int\<close> and \<open>int64\<close> are 64-bit two's complement on the platforms the program is
  built for. They are modelled as \<open>int\<close> with the wrap-around written out; division
  truncates towards zero.
\<close>

definition wrap64 :: "int \<Rightarrow> int" where
  "wrap64 x = (x + 2 ^ 63) mod 2 ^ 64 - 2 ^ 63"

definition is_int64 :: "int \<Rightarrow> bool" where
  "is_int64 x \<longleftrightarrow> - (2 ^ 63) \<le> x \<and> x < 2 ^ 63"

definition go_quot :: "int \<Rightarrow> int \<Rightarrow> int" where
  "go_quot a b = wrap64 (sgn a * sgn b * (\<bar>a\<bar> div \<bar>b\<bar>))"

subsection \<open>The placement shuffler: \<open>genRandomArr\<close>\<close>

text \<open>
  \<open>shuff[i], shuff[j] = shuff[j], shuff[i]\<close>: both right-hand sides are read before
  either element is written; an index outside the slice panics.
\<close>

definition swap :: "nat \<Rightarrow> nat \<Rightarrow> nat list \<Rightarrow> panic + nat list" where
  "swap i j shuff =
     (if \<not> j < length shuff then Inl (IndexOutOfRange j (length shuff))
      else if \<not> i < length shuff then Inl (IndexOutOfRange i (length shuff))
      else Inr (shuff[i := shuff ! j, j := shuff ! i]))"

text \<open>
  Modelled from the spec: \<open>rand.Shuffle(n, swap)\<close> of Go's math/rand, which is not part
  of the source file; it is the Fisher-Yates loop the specification names: for \<open>i\<close> from \<open>n - 1\<close> down to 1 it draws \<open>j\<close> from \<open>[0, i]\<close> and calls
  \<open>swap(i, j)\<close>. The generator is reseeded from the clock on every call, so its
  output is the arbitrary function \<open>dr\<close>; the draw for index \<open>i\<close> is reduced into
  \<open>[0, i]\<close>.
\<close>

fun Shuffle :: "(nat \<Rightarrow> nat) \<Rightarrow> nat \<Rightarrow> nat list \<Rightarrow> panic + nat list" where
  "Shuffle dr 0 shuff = Inr shuff"
| "Shuffle dr (Suc i) shuff =
     (case swap (Suc i) (dr (Suc i) mod (Suc (Suc i))) shuff of
        Inl p \<Rightarrow> Inl p
      | Inr shuff' \<Rightarrow> Shuffle dr i shuff')"

text \<open>The first loop of \<open>genRandomArr\<close>: \<open>shuff[i] = i\<close> for every \<open>i < n\<close>.\<close>

definition fill_identity :: "nat \<Rightarrow> nat list" where
  "fill_identity n = fold (\<lambda>i shuff. shuff[i := i]) [0..<n] (replicate n 0)"

text \<open>\<open>make([]int, n)\<close> panics for a negative \<open>n\<close>.\<close>

definition genRandomArr :: "(nat \<Rightarrow> nat) \<Rightarrow> int \<Rightarrow> panic + nat list" where
  "genRandomArr dr n =
     (if n < 0 then Inl MakeSliceLen
      else Shuffle dr (nat n - 1) (fill_identity (nat n)))"

subsection \<open>Configuration, environment and program state\<close>

text \<open>
  The flags \<open>-data\<close>, \<open>-par\<close> and \<open>-bs\<close>. The flag \<open>-out\<close> only selects the directory the
  destination files live in; a destination is identified by its index \<open>i\<close>, the suffix
  of its name \<open>file.i\<close>.
\<close>

record config =
  dataShards :: int
  parShards :: int
  blockSize :: int

text \<open>
  \<open>input\<close> is the content of the file named on the command line (\<open>None\<close> when \<open>os.Open\<close>
  fails); \<open>chunk s\<close> bounds the number of bytes the \<open>Read\<close> of stripe \<open>s\<close> delivers;
  \<open>draw s\<close> is the output of the random generator during stripe \<open>s\<close>; \<open>existing\<close> is
  the content the destination files have before the run.
\<close>

record env =
  input :: "byte list option"
  stat_fault :: bool
  hash_fault :: bool
  chunk :: "nat \<Rightarrow> nat"
  read_fault :: "nat \<Rightarrow> bool"
  draw :: "nat \<Rightarrow> nat \<Rightarrow> nat"
  open_fail :: "nat \<Rightarrow> nat \<Rightarrow> bool"
  write_fail :: "nat \<Rightarrow> nat \<Rightarrow> bool"
  parity :: "byte list list \<Rightarrow> nat \<Rightarrow> nat \<Rightarrow> byte"
  existing :: "nat \<Rightarrow> byte list option"

text \<open>
  The variables of \<open>main\<close> that live across loop iterations: the stripe buffer \<open>data\<close>,
  the unread part \<open>rest\<close> of the input behind the reader \<open>buf\<close>, \<open>stripeno\<close>, the
  ledger \<open>distribution\<close>, the handle slice \<open>of\<close> (\<open>ofs\<close>: \<open>None\<close> is nil, \<open>Some s\<close> the
  handle opened in stripe \<open>s\<close>), together with the destination files and the trace.
\<close>

record state =
  data :: "byte list"
  rest :: "byte list"
  stripeno :: nat
  distribution :: "nat list list"
  ofs :: "nat option list"
  files :: "nat \<Rightarrow> byte list option"
  trace :: "event list"

definition log :: "event \<Rightarrow> state \<Rightarrow> state" where
  "log e st = st\<lparr>trace := trace st @ [e]\<rparr>"

subsection \<open>The codec\<close>

text \<open>
  Modelled from the spec: \<open>reedsolomon.New\<close>, the constructor of the codec, which is not
  part of the example's source file. It enforces the invariant of the stripe
  configuration: \<open>k \<ge> 1\<close>, \<open>m \<ge> 0\<close> and \<open>k + m \<le> 256\<close>.
\<close>

definition New :: "int \<Rightarrow> int \<Rightarrow> codec_error + nat \<times> nat" where
  "New k m =
     (if k < 1 \<or> m < 0 then Inl ErrInvShardNum
      else if 256 < k + m then Inl ErrMaxShardNum
      else Inr (nat k, nat m))"

text \<open>
  Modelled from the spec: \<open>Split\<close> of the codec, which partitions a buffer whose length
  is a multiple of \<open>k\<close> into \<open>k\<close> equal data shards and appends \<open>m\<close> unfilled parity
  slots of the same size; a buffer that breaks the precondition is a codec error.
\<close>

definition Split :: "nat \<times> nat \<Rightarrow> byte list \<Rightarrow> codec_error + byte list list" where
  "Split enc buf =
     (case enc of (k, m) \<Rightarrow>
        if k = 0 \<or> length buf mod k \<noteq> 0 then Inl ErrShardSize
        else let perShard = length buf div k
             in Inr (map (\<lambda>i. take perShard (drop (i * perShard) buf)) [0..<k]
                     @ replicate m (replicate perShard 0)))"

text \<open>
  Modelled from the spec: \<open>Encode\<close> of the codec, which fills the parity shards in place
  and leaves the data shards and all sizes as they are. The Galois-field arithmetic is
  the parameter \<open>par\<close>: \<open>par ds p c\<close> is byte \<open>c\<close> of parity shard \<open>p\<close> for the data
  shards \<open>ds\<close>.
\<close>

definition Encode ::
  "(byte list list \<Rightarrow> nat \<Rightarrow> nat \<Rightarrow> byte) \<Rightarrow> nat \<times> nat \<Rightarrow> byte list list
     \<Rightarrow> codec_error + byte list list" where
  "Encode par enc shards =
     (case enc of (k, m) \<Rightarrow>
        if length shards \<noteq> k + m \<or> (\<exists>s \<in> set shards. length s \<noteq> length (hd shards))
        then Inl ErrShardSize
        else Inr (take k shards
                  @ map (\<lambda>p. map (par (take k shards) p) [0..<length (hd shards)]) [0..<m]))"

subsection \<open>One stripe\<close>

text \<open>
  \<open>of[i].Write(shards[j])\<close>: the bytes are appended to destination \<open>i\<close> unless the
  write fails. The flags of \<open>OpenFile\<close> are \<open>O_CREATE|O_APPEND\<close> and name no access
  mode, so whether a write through the handle succeeds is left to the environment. The
  error value of \<open>Write\<close> is dropped by the program.
\<close>

definition write_dest :: "env \<Rightarrow> nat \<Rightarrow> byte list \<Rightarrow> state \<Rightarrow> state" where
  "write_dest e i bs st =
     (if write_fail e (stripeno st) i then log (WriteDest (stripeno st) i bs False) st
      else log (WriteDest (stripeno st) i bs True)
             (st\<lparr>files := (files st)(i \<mapsto> (case files st i of None \<Rightarrow> [] | Some c \<Rightarrow> c) @ bs)\<rparr>))"

text \<open>\<open>os.OpenFile\<close> with \<open>O_CREATE\<close>: a destination that does not exist is created empty.\<close>

definition open_dest :: "nat \<Rightarrow> state \<Rightarrow> state" where
  "open_dest i st =
     st\<lparr>ofs := (ofs st)[i := Some (stripeno st)],
        files := (files st)(i \<mapsto> (case files st i of None \<Rightarrow> [] | Some c \<Rightarrow> c))\<rparr>"

text \<open>
  The loop \<open>for i := range shards\<close> (lines 140 to 149) over the remaining indices. A
  result \<open>Inl\<close> ends the program with the given outcome. In line 145 the file is
  opened before the results are stored, so the bounds check of \<open>of[i]\<close> comes after the
  call and before \<open>checkErr\<close>.
\<close>

fun write_shards ::
  "env \<Rightarrow> byte list list \<Rightarrow> nat list \<Rightarrow> state \<Rightarrow> outcome \<times> state + state" where
  "write_shards e shards [] st = Inr st"
| "write_shards e shards (i # is) st =
     (if \<not> stripeno st < length (distribution st)
      then Inl (Panicked (IndexOutOfRange (stripeno st) (length (distribution st))), st)
      else if \<not> i < length (distribution st ! stripeno st)
      then Inl (Panicked (IndexOutOfRange i (length (distribution st ! stripeno st))), st)
      else let j = distribution st ! stripeno st ! i;
               st1 = log (OpenDest (stripeno st) i) st
           in if \<not> i < length (ofs st1)
              then Inl (Panicked (IndexOutOfRange i (length (ofs st1))),
                        if open_fail e (stripeno st) i then st1 else open_dest i st1)
              else if open_fail e (stripeno st) i then Inl (Exit 2, st1)
              else if \<not> j < length shards
              then Inl (Panicked (IndexOutOfRange j (length shards)), open_dest i st1)
              else write_shards e shards is (write_dest e i (shards ! j) (open_dest i st1)))"

text \<open>\<open>buf.Read(data)\<close>: the first \<open>b\<close> bytes of the buffer are overwritten, the others stay.\<close>

definition read_stripe :: "env \<Rightarrow> state \<Rightarrow> nat \<times> state" where
  "read_stripe e st =
     (let b = min (chunk e (stripeno st)) (min (length (data st)) (length (rest st)))
      in (b, log (ReadInput (stripeno st) b)
               (st\<lparr>data := take b (rest st) @ drop b (data st), rest := drop b (rest st)\<rparr>)))"

text \<open>
  Lines 127 to 132: \<open>Split\<close>, the report of line 129 (which indexes \<open>shards[0]\<close>) and
  \<open>Encode\<close>; \<open>checkErr\<close> ends the program with status 2 on a codec error.
\<close>

definition encode ::
  "env \<Rightarrow> nat \<times> nat \<Rightarrow> state \<Rightarrow> outcome \<times> state + byte list list \<times> state" where
  "encode e enc st =
     (let st1 = log (CodecSplit (stripeno st) (data st)) st
      in case Split enc (data st) of
           Inl err \<Rightarrow> Inl (Exit 2, st1)
         | Inr shards0 \<Rightarrow>
             if shards0 = [] then Inl (Panicked (IndexOutOfRange 0 0), st1)
             else (case Encode (parity e) enc shards0 of
                     Inl err \<Rightarrow> Inl (Exit 2, st1)
                   | Inr shards \<Rightarrow> Inr (shards, st1)))"

text \<open>
  Lines 139 to 149: the arrangement is generated, stored in the ledger at index
  \<open>stripeno\<close> (an index outside the ledger panics) and the shards are written.
\<close>

definition place :: "env \<Rightarrow> config \<Rightarrow> byte list list \<Rightarrow> state \<Rightarrow> outcome \<times> state + state" where
  "place e cfg shards st =
     (case genRandomArr (draw e (stripeno st)) (wrap64 (dataShards cfg + parShards cfg)) of
        Inl p \<Rightarrow> Inl (Panicked p, st)
      | Inr perm \<Rightarrow>
          if \<not> stripeno st < length (distribution st)
          then Inl (Panicked (IndexOutOfRange (stripeno st) (length (distribution st))), st)
          else write_shards e shards [0..<length shards]
                 (st\<lparr>distribution := (distribution st)[stripeno st := perm]\<rparr>))"

text \<open>
  The body of the loop up to the test of line 150. \<open>Inr (b, st)\<close> is the number of bytes
  read and the state before that test. A read error other than end of file panics.
\<close>

definition stripe ::
  "env \<Rightarrow> config \<Rightarrow> nat \<times> nat \<Rightarrow> state \<Rightarrow> outcome \<times> state + nat \<times> state" where
  "stripe e cfg enc st =
     (if read_fault e (stripeno st) then Inl (Panicked ReadError, st)
      else case read_stripe e st of (b, st1) \<Rightarrow>
        (case encode e enc st1 of
           Inl r \<Rightarrow> Inl r
         | Inr (shards, st2) \<Rightarrow>
             (case place e cfg shards st2 of
                Inl r \<Rightarrow> Inl r
              | Inr st3 \<Rightarrow> Inr (b, st3))))"

text \<open>The loop of lines 155 to 157: \<open>Close\<close> on a nil handle only returns an error.\<close>

definition close_all :: "state \<Rightarrow> state" where
  "close_all st =
     fold (\<lambda>i st'. case ofs st' ! i of None \<Rightarrow> st' | Some s \<Rightarrow> log (CloseDest i s) st')
       [0..<length (ofs st)] st"

subsection \<open>The stripe loop and \<open>main\<close>\<close>

lemma write_dest_keeps [simp]:
  "stripeno (write_dest e i bs st) = stripeno st"
  "distribution (write_dest e i bs st) = distribution st"
  "ofs (write_dest e i bs st) = ofs st"
  "data (write_dest e i bs st) = data st"
  "rest (write_dest e i bs st) = rest st"
  by (simp_all add: write_dest_def log_def)

lemma open_dest_keeps [simp]:
  "stripeno (open_dest i st) = stripeno st"
  "distribution (open_dest i st) = distribution st"
  "length (ofs (open_dest i st)) = length (ofs st)"
  "data (open_dest i st) = data st"
  "rest (open_dest i st) = rest st"
  "trace (open_dest i st) = trace st"
  by (simp_all add: open_dest_def)

lemma log_keeps [simp]:
  "stripeno (log ev st) = stripeno st"
  "distribution (log ev st) = distribution st"
  "ofs (log ev st) = ofs st"
  "data (log ev st) = data st"
  "rest (log ev st) = rest st"
  "files (log ev st) = files st"
  "trace (log ev st) = trace st @ [ev]"
  by (simp_all add: log_def)

lemma write_shards_keeps:
  "write_shards e shards is st = Inr st' \<Longrightarrow>
     stripeno st' = stripeno st \<and> distribution st' = distribution st \<and>
     data st' = data st \<and> rest st' = rest st \<and> length (ofs st') = length (ofs st)"
proof (induction "is" arbitrary: st)
  case Nil
  then show ?case by simp
next
  case (Cons i "is")
  from Cons.prems show ?case
    by (auto simp: Let_def split: if_splits dest!: Cons.IH)
qed

lemma read_stripe_keeps:
  "read_stripe e st = (b, st1) \<Longrightarrow>
     stripeno st1 = stripeno st \<and> distribution st1 = distribution st \<and> ofs st1 = ofs st"
  by (auto simp: read_stripe_def Let_def)

lemma encode_keeps:
  "encode e enc st = Inr (shards, st') \<Longrightarrow>
     stripeno st' = stripeno st \<and> distribution st' = distribution st \<and> ofs st' = ofs st \<and>
     data st' = data st \<and> rest st' = rest st \<and> files st' = files st"
  by (auto simp: encode_def Let_def split: sum.splits if_splits)

lemma place_keeps:
  assumes "place e cfg shards st = Inr st'"
  shows "stripeno st < length (distribution st) \<and> stripeno st' = stripeno st \<and>
         length (distribution st') = length (distribution st) \<and>
         data st' = data st \<and> rest st' = rest st \<and> length (ofs st') = length (ofs st)"
proof -
  from assms obtain perm where
    "write_shards e shards [0..<length shards]
       (st\<lparr>distribution := (distribution st)[stripeno st := perm]\<rparr>) = Inr st'"
    and "stripeno st < length (distribution st)"
    by (auto simp: place_def split: sum.splits if_splits)
  with write_shards_keeps [OF this(1)] show ?thesis by simp
qed

lemma stripe_Inr_parts:
  assumes "stripe e cfg enc st = Inr (b, st')"
  shows "\<not> read_fault e (stripeno st) \<and>
         (\<exists>st1 shards st2. read_stripe e st = (b, st1) \<and> encode e enc st1 = Inr (shards, st2) \<and>
            place e cfg shards st2 = Inr st')"
proof -
  obtain b1 st1 where r: "read_stripe e st = (b1, st1)"
    by (cases "read_stripe e st")
  from assms have nf: "\<not> read_fault e (stripeno st)"
    by (rule contrapos_pn) (simp add: stripe_def)
  show ?thesis
  proof (cases "encode e enc st1")
    case (Inl x)
    with assms nf r show ?thesis by (simp add: stripe_def)
  next
    case (Inr y)
    obtain shards st2 where y: "y = (shards, st2)" by (cases y)
    show ?thesis
    proof (cases "place e cfg shards st2")
      case (Inl x)
      with assms nf r Inr y show ?thesis by (simp add: stripe_def)
    next
      case Inr3: (Inr st3)
      with assms nf r Inr y show ?thesis by (simp add: stripe_def)
    qed
  qed
qed

lemma stripe_continues:
  assumes "stripe e cfg enc st = Inr (b, st')"
  shows "stripeno st < length (distribution st) \<and> stripeno st' = stripeno st \<and>
         length (distribution st') = length (distribution st)"
proof -
  from stripe_Inr_parts [OF assms] obtain st1 shards st2 where
    p: "read_stripe e st = (b, st1)" "encode e enc st1 = Inr (shards, st2)"
       "place e cfg shards st2 = Inr st'"
    by blast
  from read_stripe_keeps [OF p(1)] encode_keeps [OF p(2)] place_keeps [OF p(3)]
  show ?thesis by simp
qed

text \<open>
  The loop of lines 119 to 154. Every iteration that reaches line 150 has stored an
  entry in the ledger at index \<open>stripeno\<close>, so the number of free ledger slots bounds
  the number of iterations.
\<close>

function loop :: "env \<Rightarrow> config \<Rightarrow> nat \<times> nat \<Rightarrow> int \<Rightarrow> state \<Rightarrow> outcome \<times> state" where
  "loop e cfg enc stripeSize st =
     (case stripe e cfg enc st of
        Inl r \<Rightarrow> r
      | Inr (b, st') \<Rightarrow>
          if int b < stripeSize then (Returned, close_all st')
          else loop e cfg enc stripeSize (st'\<lparr>stripeno := stripeno st' + 1\<rparr>))"
  by pat_completeness auto
termination
proof (relation "measure (\<lambda>(e, cfg, enc, stripeSize, st). length (distribution st) - stripeno st)")
  show "wf (measure (\<lambda>(e, cfg, enc, stripeSize, st). length (distribution st) - stripeno st))"
    by simp
next
  fix e cfg enc stripeSize st x2 b st'
  assume "stripe e cfg enc st = Inr x2" "(b, st') = x2"
  then have "stripe e cfg enc st = Inr (b, st')" by simp
  from stripe_continues [OF this]
  show "((e, cfg, enc, stripeSize, st'\<lparr>stripeno := stripeno st' + 1\<rparr>), e, cfg, enc, stripeSize, st)
          \<in> measure (\<lambda>(e, cfg, enc, stripeSize, st). length (distribution st) - stripeno st)"
    by auto
qed

declare loop.simps [simp del]

text \<open>
  \<open>main\<close>, from the parsed flags and arguments to the end of the program. The deferred
  \<open>f.Close()\<close> runs when \<open>main\<close> returns or panics, not when \<open>os.Exit\<close> ends the process.
  The hash of the input is only printed and is not modelled beyond its pass over the
  file.
\<close>

definition close_input :: "outcome \<times> state \<Rightarrow> outcome \<times> state" where
  "close_input r =
     (case r of (Exit c, st) \<Rightarrow> (Exit c, st) | (out, st) \<Rightarrow> (out, log CloseInput st))"

definition main :: "env \<Rightarrow> config \<Rightarrow> string list \<Rightarrow> outcome \<times> state" where
  "main e cfg args =
     (let st0 = \<lparr>data = [], rest = [], stripeno = 0, distribution = [], ofs = [],
                 files = existing e, trace = []\<rparr>
      in if length args \<noteq> 1 then (Exit 1, st0)
         else if 256 < wrap64 (dataShards cfg + parShards cfg) then (Exit 1, st0)
         else case New (dataShards cfg) (parShards cfg) of
           Inl err \<Rightarrow> (Exit 2, st0)
         | Inr enc \<Rightarrow>
            (case input e of
               None \<Rightarrow> (Panicked OpenInputError, log OpenInput st0)
             | Some content \<Rightarrow> close_input
                (let st1 = log StatInput (log OpenInput st0)
                 in if stat_fault e then (Panicked StatError, st1)
                    else let fileSize = int (length content);
                             st2 = log HashPass st1
                    in if hash_fault e then (Panicked HashError, st2)
                    else let st3 = log SeekStart (st2\<lparr>rest := content\<rparr>);
                             stripeSize = wrap64 (wrap64 (dataShards cfg) * blockSize cfg)
                    in if stripeSize < 0 then (Panicked MakeSliceLen, st3)
                    else let st4 = st3\<lparr>data := replicate (nat stripeSize) 0,
                                 ofs := replicate (nat (wrap64 (dataShards cfg + parShards cfg))) None\<rparr>
                    in if stripeSize = 0 then (Panicked DivideByZero, st4)
                    else let stripeNum =
                               go_quot (wrap64 (wrap64 (fileSize + stripeSize) - 1)) stripeSize
                    in if stripeNum < 0 then (Panicked MakeSliceLen, st4)
                    else loop e cfg enc stripeSize
                           (st4\<lparr>distribution := replicate (nat stripeNum) []\<rparr>))))"

subsection \<open>Reading the trace\<close>

text \<open>
  The shard set the program computes from a stripe buffer (\<open>Split\<close>, then \<open>Encode\<close>),
  the events a complete pass of the write loop of stripe \<open>s\<close> emits, and the projections
  of a trace to one destination \<open>i\<close>: the stripes in which it was opened, the writes
  through its handles (stripe, bytes, success) and the stripes whose handles were closed.
\<close>

definition shards_of :: "env \<Rightarrow> nat \<times> nat \<Rightarrow> byte list \<Rightarrow> byte list list" where
  "shards_of e enc buf =
     (case Split enc buf of
        Inl err \<Rightarrow> []
      | Inr shards0 \<Rightarrow> (case Encode (parity e) enc shards0 of Inl err \<Rightarrow> [] | Inr shards \<Rightarrow> shards))"

definition write_events :: "env \<Rightarrow> nat \<Rightarrow> nat list \<Rightarrow> byte list list \<Rightarrow> nat list \<Rightarrow> event list" where
  "write_events e s perm shards is =
     concat (map (\<lambda>i. [OpenDest s i, WriteDest s i (shards ! (perm ! i)) (\<not> write_fail e s i)]) is)"

fun opened :: "nat \<Rightarrow> event list \<Rightarrow> nat list" where
  "opened i [] = []"
| "opened i (OpenDest s j # tr) = (if j = i then s # opened i tr else opened i tr)"
| "opened i (ev # tr) = opened i tr"

fun writes :: "nat \<Rightarrow> event list \<Rightarrow> (nat \<times> byte list \<times> bool) list" where
  "writes i [] = []"
| "writes i (WriteDest s j bs ok # tr) =
     (if j = i then (s, bs, ok) # writes i tr else writes i tr)"
| "writes i (ev # tr) = writes i tr"

fun closed :: "nat \<Rightarrow> event list \<Rightarrow> nat list" where
  "closed i [] = []"
| "closed i (CloseDest j s # tr) = (if j = i then s # closed i tr else closed i tr)"
| "closed i (ev # tr) = closed i tr"

text \<open>
  The bytes of the successful writes to destination \<open>i\<close>, concatenated in the order of the
  trace.
\<close>

definition appended :: "nat \<Rightarrow> event list \<Rightarrow> byte list" where
  "appended i tr = concat (map (\<lambda>(s, bs, ok). bs) (filter (\<lambda>(s, bs, ok). ok) (writes i tr)))"

text \<open>
  The invariant of the stripe loop: every write in the trace belongs to a stripe below
  \<open>n\<close>, carries the shard that the ledger entry of its stripe selects for its
  destination, and every stripe handed one buffer to the codec.
\<close>

definition sound_upto :: "env \<Rightarrow> config \<Rightarrow> nat \<times> nat \<Rightarrow> nat \<Rightarrow> state \<Rightarrow> bool" where
  "sound_upto e cfg enc n st \<longleftrightarrow>
     (\<forall>s i bs ok. WriteDest s i bs ok \<in> set (trace st) \<longrightarrow>
        s < n \<and> s < length (distribution st) \<and> i < length (distribution st ! s) \<and>
        genRandomArr (draw e s) (wrap64 (dataShards cfg + parShards cfg))
          = Inr (distribution st ! s) \<and>
        ok = (\<not> write_fail e s i) \<and>
        (\<exists>buf. CodecSplit s buf \<in> set (trace st) \<and>
               bs = shards_of e enc buf ! (distribution st ! s ! i))) \<and>
     (\<forall>s buf. CodecSplit s buf \<in> set (trace st) \<longrightarrow> s < n) \<and>
     (\<forall>s buf buf'. CodecSplit s buf \<in> set (trace st) \<longrightarrow> CodecSplit s buf' \<in> set (trace st) \<longrightarrow>
        buf = buf')"

text \<open>
  The state at the head of the loop after \<open>s\<close> full stripes of a run in which no call
  failed: the buffer still holds the previous stripe, the reader stands at byte
  \<open>s * k * per\<close>, and every destination has received one shard of \<open>per\<close> bytes per
  stripe.
\<close>

definition at_stripe ::
  "env \<Rightarrow> nat \<Rightarrow> nat \<Rightarrow> nat \<Rightarrow> nat \<Rightarrow> byte list \<Rightarrow> nat \<Rightarrow> state \<Rightarrow> bool" where
  "at_stripe e k m per N content s st \<longleftrightarrow>
     stripeno st = s \<and> s * (k * per) \<le> length content \<and>
     data st = (if s = 0 then replicate (k * per) 0
                else take (k * per) (drop ((s - 1) * (k * per)) content)) \<and>
     rest st = drop (s * (k * per)) content \<and>
     length (distribution st) = N \<and>
     length (ofs st) = k + m \<and>
     (\<forall>i. \<not> i < k + m \<longrightarrow> files st i = existing e i) \<and>
     (\<forall>i < k + m.
        map fst (writes i (trace st)) = [0..<s] \<and>
        (\<forall>w \<in> set (writes i (trace st)).
           length (fst (snd w)) = per \<and> snd (snd w) = (\<not> write_fail e (fst w) i)) \<and>
        (case files st i of None \<Rightarrow> [] | Some c \<Rightarrow> c) =
          (case existing e i of None \<Rightarrow> [] | Some c \<Rightarrow> c) @ appended i (trace st) \<and>
        (0 < s \<longrightarrow> files st i \<noteq> None))"

subsection \<open>Sample environment and configuration\<close>

text \<open>
  An environment in which nothing fails: every \<open>Read\<close> delivers up to \<open>c\<close> bytes, every
  draw of the generator is 4, every parity byte is 9 and no destination exists yet.
\<close>

definition quiet :: "byte list \<Rightarrow> nat \<Rightarrow> env" where
  "quiet content c =
     \<lparr>input = Some content, stat_fault = False, hash_fault = False, chunk = (\<lambda>s. c),
      read_fault = (\<lambda>s. False), draw = (\<lambda>s i. 4), open_fail = (\<lambda>s i. False),
      write_fail = (\<lambda>s i. False), parity = (\<lambda>ds p c. 9), existing = (\<lambda>i. None)\<rparr>"

definition small :: config where
  "small = \<lparr>dataShards = 2, parShards = 1, blockSize = 1\<rparr>"

text \<open>The default values of the flags.\<close>

definition defaults :: config where
  "defaults = \<lparr>dataShards = 4, parShards = 2, blockSize = 1024\<rparr>"

section \<open>Properties of the placement shuffler\<close>

lemma fold_fill_prefix:
  "k \<le> n \<Longrightarrow>
   fold (\<lambda>i shuff. shuff[i := i]) [0..<k] (replicate n 0) = [0..<k] @ replicate (n - k) 0"
proof (induction k)
  case 0
  then show ?case by simp
next
  case (Suc k)
  then have "n - k = Suc (n - Suc k)" by simp
  with Suc show ?case
    by (simp add: list_update_append)
qed

lemma fill_identity_upt: "fill_identity n = [0..<n]"
  using fold_fill_prefix [of n n] by (simp add: fill_identity_def)

lemma swap_mset:
  "swap i j xs = Inr ys \<Longrightarrow> mset ys = mset xs"
  by (auto simp: swap_def mset_swap split: if_splits)

lemma swap_in_range:
  "i < length xs \<Longrightarrow> j < length xs \<Longrightarrow> \<exists>ys. swap i j xs = Inr ys \<and> length ys = length xs"
  by (simp add: swap_def)

lemma Shuffle_mset:
  "i < length xs \<Longrightarrow> \<exists>ys. Shuffle dr i xs = Inr ys \<and> mset ys = mset xs"
proof (induction i arbitrary: xs)
  case 0
  then show ?case by simp
next
  case (Suc i)
  have j: "dr (Suc i) mod Suc (Suc i) < length xs"
    using Suc.prems by (meson Suc_leI less_le_trans mod_less_divisor zero_less_Suc)
  from swap_in_range [OF Suc.prems j] obtain zs
    where zs: "swap (Suc i) (dr (Suc i) mod Suc (Suc i)) xs = Inr zs" "length zs = length xs"
    by blast
  from Suc.prems zs(2) have "i < length zs" by simp
  from Suc.IH [OF this] obtain ys where "Shuffle dr i zs = Inr ys" "mset ys = mset zs"
    by blast
  with zs swap_mset [OF zs(1)] show ?case by simp
qed

lemma genRandomArr_mset:
  assumes "0 \<le> n"
  shows "\<exists>p. genRandomArr dr n = Inr p \<and> mset p = mset [0..<nat n]"
proof (cases "n = 0")
  case True
  then show ?thesis by (simp add: genRandomArr_def fill_identity_upt)
next
  case False
  with assms have "nat n - 1 < length (fill_identity (nat n))"
    by (simp add: fill_identity_upt)
  from Shuffle_mset [OF this, of dr] assms show ?thesis
    by (simp add: genRandomArr_def fill_identity_upt)
qed

lemma genRandomArr_perm:
  assumes "0 \<le> n"
  shows "\<exists>p. genRandomArr dr n = Inr p \<and> length p = nat n \<and> distinct p \<and> set p = {0..<nat n}"
proof -
  from genRandomArr_mset [OF assms] obtain p
    where p: "genRandomArr dr n = Inr p" "mset p = mset [0..<nat n]" by blast
  from p(2) have "length p = nat n"
    by (metis length_upt mset_eq_length minus_nat.diff_0)
  moreover from p(2) have "distinct p"
    by (metis distinct_upt mset_eq_imp_distinct_iff)
  moreover from p(2) have "set p = {0..<nat n}"
    by (metis atLeastLessThan_upt mset_eq_setD)
  ultimately show ?thesis using p(1) by blast
qed

text \<open>
  C7. For every \<open>n \<ge> 0\<close> and every behaviour \<open>dr\<close> of the pseudo-random source,
  \<open>genRandomArr n\<close> returns a permutation of \<open>[0, n)\<close>: a list of length \<open>n\<close> without
  duplicates whose elements are exactly \<open>0, ..., n - 1\<close>. For \<open>n = 0\<close> the result is
  the empty list and for \<open>n = 1\<close> it is \<open>[0]\<close>.
\<close>

theorem genRandomArr_permutation:
  "(0 \<le> n \<longrightarrow>
      (\<exists>p. genRandomArr dr n = Inr p \<and> length p = nat n \<and> distinct p \<and>
           set p = {0..<nat n})) \<and>
   genRandomArr dr 0 = Inr [] \<and>
   genRandomArr dr 1 = Inr [0]"
proof -
  have "genRandomArr dr 0 = Inr []" "genRandomArr dr 1 = Inr [0]"
    by (simp_all add: genRandomArr_def fill_identity_upt)
  with genRandomArr_perm [of n dr] show ?thesis by blast
qed

theorem genRandomArr_permutation_witness:
  "(0::int) \<le> 3 \<and> genRandomArr (\<lambda>i. 4) 3 = Inr [2, 0, 1] \<and>
   (\<exists>p. genRandomArr (\<lambda>i. 4) 3 = Inr p \<and> length p = nat 3 \<and> distinct p \<and>
        set p = {0..<nat 3})"
proof -
  have "genRandomArr (\<lambda>i. 4) 3 = Inr [2, 0, 1]"
    by code_simp
  with genRandomArr_permutation [of 3 "\<lambda>i. 4"] show ?thesis by simp
qed


section \<open>Arithmetic, codec and single-iteration facts\<close>

lemma wrap64_id: "is_int64 x \<Longrightarrow> wrap64 x = x"
  by (simp add: wrap64_def is_int64_def)

lemma go_quot_nonneg:
  assumes "0 \<le> a" "0 < b" "is_int64 a"
  shows "go_quot a b = a div b"
proof -
  have "0 \<le> a div b"
    using assms by (simp add: pos_imp_zdiv_nonneg_iff)
  moreover have "a div b \<le> a div 1"
    using assms by (intro zdiv_mono2) simp_all
  ultimately have d: "0 \<le> a div b" "a div b \<le> a" by simp_all
  then have "is_int64 (a div b)" using assms(3) by (simp add: is_int64_def)
  moreover have "sgn a * sgn b * (\<bar>a\<bar> div \<bar>b\<bar>) = a div b"
    using assms by (cases "a = 0") (simp_all add: sgn_if)
  ultimately show ?thesis by (simp add: go_quot_def wrap64_id)
qed

lemma Split_ok:
  assumes "0 < k" "length buf = k * per"
  shows "Split (k, m) buf =
           Inr (map (\<lambda>i. take per (drop (i * per) buf)) [0..<k] @ replicate m (replicate per 0))"
  using assms by (simp add: Split_def)

lemma Split_shape:
  assumes "0 < k" "length buf = k * per"
  shows "\<exists>sh. Split (k, m) buf = Inr sh \<and> length sh = k + m \<and> (\<forall>x \<in> set sh. length x = per)"
proof -
  have "\<forall>i \<in> set [0..<k]. length (take per (drop (i * per) buf)) = per"
  proof
    fix i assume "i \<in> set [0..<k]"
    then have "Suc i \<le> k" by simp
    then have "Suc i * per \<le> k * per" by (rule mult_le_mono1)
    then show "length (take per (drop (i * per) buf)) = per"
      using assms(2) by simp
  qed
  then show ?thesis using Split_ok [OF assms, of m] by auto
qed

lemma Encode_shape:
  assumes "length sh = k + m" "\<forall>x \<in> set sh. length x = per" "0 < k"
  shows "\<exists>sh'. Encode par (k, m) sh = Inr sh' \<and> length sh' = k + m \<and>
           (\<forall>x \<in> set sh'. length x = per) \<and> take k sh' = take k sh"
proof -
  from assms have ne: "sh \<noteq> []" by auto
  then have hd: "length (hd sh) = per" using assms(2) by simp
  have "\<forall>x \<in> set (take k sh). length x = per"
    using assms(2) by (meson in_set_takeD)
  with assms hd show ?thesis
    by (auto simp: Encode_def)
qed

lemma codec_ok:
  assumes "0 < k" "length buf = k * per"
  shows "\<exists>sh0 sh. Split (k, m) buf = Inr sh0 \<and> sh0 \<noteq> [] \<and> Encode par (k, m) sh0 = Inr sh \<and>
           length sh = k + m \<and> (\<forall>x \<in> set sh. length x = per) \<and> take k sh = take k sh0"
proof -
  from Split_shape [OF assms, of m] obtain sh0 where
    s: "Split (k, m) buf = Inr sh0" "length sh0 = k + m" "\<forall>x \<in> set sh0. length x = per"
    by blast
  from Encode_shape [OF s(2) s(3) assms(1), of par] obtain sh where
    "Encode par (k, m) sh0 = Inr sh" "length sh = k + m" "\<forall>x \<in> set sh. length x = per"
    "take k sh = take k sh0"
    by blast
  moreover from s(2) assms(1) have "sh0 \<noteq> []" by auto
  ultimately show ?thesis using s(1) by blast
qed

lemma read_stripe_length:
  "read_stripe e st = (b, st1) \<Longrightarrow> length (data st1) = length (data st)"
  by (auto simp: read_stripe_def Let_def)

lemma encode_ok:
  assumes "0 < k" "length (data st) = k * per"
  shows "\<exists>sh. encode e (k, m) st = Inr (sh, log (CodecSplit (stripeno st) (data st)) st) \<and>
           length sh = k + m \<and> (\<forall>x \<in> set sh. length x = per)"
proof -
  from codec_ok [OF assms, of m "parity e"] obtain sh0 sh where
    "Split (k, m) (data st) = Inr sh0" "sh0 \<noteq> []" "Encode (parity e) (k, m) sh0 = Inr sh"
    "length sh = k + m" "\<forall>x \<in> set sh. length x = per"
    by blast
  then show ?thesis by (simp add: encode_def)
qed

lemma stripe_ledger_full:
  assumes "\<not> read_fault e (stripeno st)" "0 < k" "length (data st) = k * per"
    and "wrap64 (dataShards cfg + parShards cfg) = int (k + m)"
    and "\<not> stripeno st < length (distribution st)"
  shows "stripe e cfg (k, m) st =
           Inl (Panicked (IndexOutOfRange (stripeno st) (length (distribution st))),
                log (CodecSplit (stripeno st) (data (snd (read_stripe e st))))
                  (snd (read_stripe e st)))"
proof -
  obtain b st1 where r: "read_stripe e st = (b, st1)"
    by (cases "read_stripe e st")
  from read_stripe_length [OF r] assms(3) have len: "length (data st1) = k * per" by simp
  from encode_ok [OF assms(2) len, of e m] obtain sh where
    c: "encode e (k, m) st1 = Inr (sh, log (CodecSplit (stripeno st1) (data st1)) st1)"
    by blast
  from genRandomArr_perm [of "int (k + m)" "draw e (stripeno st)"] obtain p where
    p: "genRandomArr (draw e (stripeno st)) (int (k + m)) = Inr p" by auto
  from read_stripe_keeps [OF r] have k: "stripeno st1 = stripeno st" "distribution st1 = distribution st"
    by simp_all
  show ?thesis
    using assms(1,4,5) r c p k by (simp add: stripe_def place_def)
qed

lemma main_loop:
  assumes "length args = 1"
    and "1 \<le> dataShards cfg" "0 \<le> parShards cfg" "dataShards cfg + parShards cfg \<le> 256"
    and "1 \<le> blockSize cfg"
    and "dataShards cfg * blockSize cfg + int (length content) < 2 ^ 63"
    and "input e = Some content" "\<not> stat_fault e" "\<not> hash_fault e"
  shows "main e cfg args =
           close_input (loop e cfg (nat (dataShards cfg), nat (parShards cfg))
             (dataShards cfg * blockSize cfg)
             \<lparr>data = replicate (nat (dataShards cfg * blockSize cfg)) 0, rest = content,
              stripeno = 0,
              distribution = replicate (nat ((int (length content) + dataShards cfg * blockSize cfg - 1)
                                div (dataShards cfg * blockSize cfg))) [],
              ofs = replicate (nat (dataShards cfg + parShards cfg)) None,
              files = existing e, trace = [OpenInput, StatInput, HashPass, SeekStart]\<rparr>)"
proof -
  let ?k = "dataShards cfg" and ?m = "parShards cfg" and ?bs = "blockSize cfg"
  let ?L = "int (length content)"
  have S: "1 \<le> ?k * ?bs" using mult_mono [of 1 ?k 1 ?bs] assms(2,5) by simp
  have w1: "wrap64 (?k + ?m) = ?k + ?m" "wrap64 ?k = ?k"
    using assms(2,3,4) by (simp_all add: wrap64_id is_int64_def)
  have w2: "wrap64 (?k * ?bs) = ?k * ?bs" "wrap64 (?L + ?k * ?bs) = ?L + ?k * ?bs"
    "wrap64 (?L + ?k * ?bs - 1) = ?L + ?k * ?bs - 1"
    using S assms(6) by (simp_all add: wrap64_id is_int64_def)
  have q: "go_quot (?L + ?k * ?bs - 1) (?k * ?bs) = (?L + ?k * ?bs - 1) div (?k * ?bs)"
    using S assms(6) by (intro go_quot_nonneg) (simp_all add: is_int64_def)
  have nn: "0 \<le> (?L + ?k * ?bs - 1) div (?k * ?bs)"
    using S by (simp add: pos_imp_zdiv_nonneg_iff)
  have pos: "0 < ?k" "0 < ?bs" "?k \<noteq> 0" "?bs \<noteq> 0" using assms(2,5) by simp_all
  show ?thesis
    using assms(1,2,3,4,7,8,9) pos nn
    by (simp add: main_def Let_def New_def w1 w2 q log_def zero_less_mult_iff mult_less_0_iff)
qed

section \<open>The write loop, one stripe and the loop rule\<close>

lemma opened_append [simp]: "opened i (xs @ ys) = opened i xs @ opened i ys"
  by (induction i xs rule: opened.induct) simp_all

lemma writes_append [simp]: "writes i (xs @ ys) = writes i xs @ writes i ys"
  by (induction i xs rule: writes.induct) simp_all

lemma closed_append [simp]: "closed i (xs @ ys) = closed i xs @ closed i ys"
  by (induction i xs rule: closed.induct) simp_all

lemma write_events_Nil [simp]: "write_events e s perm shards [] = []"
  by (simp add: write_events_def)

lemma write_events_Cons [simp]:
  "write_events e s perm shards (i # is) =
     OpenDest s i # WriteDest s i (shards ! (perm ! i)) (\<not> write_fail e s i)
       # write_events e s perm shards is"
  by (simp add: write_events_def)

lemma write_events_append [simp]:
  "write_events e s perm shards (xs @ ys) =
     write_events e s perm shards xs @ write_events e s perm shards ys"
  by (simp add: write_events_def)

lemma opened_write_events:
  "distinct is \<Longrightarrow> opened i (write_events e s perm shards is) = (if i \<in> set is then [s] else [])"
  by (induction "is") auto

lemma writes_write_events:
  "distinct is \<Longrightarrow> writes i (write_events e s perm shards is) =
     (if i \<in> set is then [(s, shards ! (perm ! i), \<not> write_fail e s i)] else [])"
  by (induction "is") auto

lemma closed_write_events [simp]: "closed i (write_events e s perm shards is) = []"
  by (induction "is") auto

lemma trace_write_dest:
  "trace (write_dest e i bs st) = trace st @ [WriteDest (stripeno st) i bs (\<not> write_fail e (stripeno st) i)]"
  by (simp add: write_dest_def)

lemma files_write_dest:
  "files (write_dest e i bs st) =
     (if write_fail e (stripeno st) i then files st
      else (files st)(i \<mapsto> (case files st i of None \<Rightarrow> [] | Some c \<Rightarrow> c) @ bs))"
  by (simp add: write_dest_def)

lemma write_shards_Inr:
  assumes "write_shards e shards is st = Inr st'" "distinct is"
    and "stripeno st = s" "distribution st ! s = perm"
  shows "trace st' = trace st @ write_events e s perm shards is \<and>
         (\<forall>i. files st' i =
            (if i \<in> set is
             then Some ((case files st i of None \<Rightarrow> [] | Some c \<Rightarrow> c) @
                    (if write_fail e s i then [] else shards ! (perm ! i)))
             else files st i)) \<and>
         (\<forall>i \<in> set is. i < length (ofs st) \<and> ofs st' ! i = Some s \<and>
            \<not> open_fail e s i \<and> i < length perm \<and> perm ! i < length shards) \<and>
         (\<forall>i. i \<notin> set is \<longrightarrow> ofs st' ! i = ofs st ! i)"
  using assms
proof (induction "is" arbitrary: st)
  case Nil
  then show ?case by simp
next
  case (Cons i "is")
  let ?j = "perm ! i"
  let ?st1 = "write_dest e i (shards ! ?j) (open_dest i (log (OpenDest s i) st))"
  note sp = Cons.prems(3,4)
  from Cons.prems(1) have g: "i < length perm"
    "i < length (ofs st)" "\<not> open_fail e s i" "?j < length shards"
    and r: "write_shards e shards is ?st1 = Inr st'"
    by (auto simp: Let_def sp split: if_splits)
  from Cons.prems(2) have d: "distinct is" "i \<notin> set is" by simp_all
  have k: "stripeno ?st1 = s" "distribution ?st1 ! s = perm" by (simp_all add: sp)
  note IH = Cons.IH [OF r d(1) k]
  have tr1: "trace ?st1 = trace st @ [OpenDest s i, WriteDest s i (shards ! ?j) (\<not> write_fail e s i)]"
    by (simp add: trace_write_dest sp)
  have f1: "files ?st1 i = Some ((case files st i of None \<Rightarrow> [] | Some c \<Rightarrow> c) @
                    (if write_fail e s i then [] else shards ! ?j))"
    "\<And>i'. i' \<noteq> i \<Longrightarrow> files ?st1 i' = files st i'"
    by (simp_all add: files_write_dest open_dest_def sp split: option.splits)
  have o1: "ofs ?st1 = (ofs st)[i := Some s]"
    by (simp add: open_dest_def sp)
  show ?case
  proof (intro conjI allI ballI impI)
    show "trace st' = trace st @ write_events e s perm shards (i # is)"
      using IH tr1 by simp
  next
    fix i'
    show "files st' i' =
            (if i' \<in> set (i # is)
             then Some ((case files st i' of None \<Rightarrow> [] | Some c \<Rightarrow> c) @
                    (if write_fail e s i' then [] else shards ! (perm ! i')))
             else files st i')"
      using IH f1 d(2) by (cases "i' = i") simp_all
  next
    fix i' assume "i' \<in> set (i # is)"
    then show "i' < length (ofs st)" "ofs st' ! i' = Some s" "\<not> open_fail e s i'"
      "i' < length perm" "perm ! i' < length shards"
      using IH g d(2) o1 by auto
  next
    fix i' assume "i' \<notin> set (i # is)"
    then show "ofs st' ! i' = ofs st ! i'"
      using IH o1 by simp
  qed
qed

lemma Encode_length:
  "Encode par (k, m) sh0 = Inr sh \<Longrightarrow> length sh = k + m"
  by (auto simp: Encode_def split: if_splits)

lemma encode_Inr:
  assumes "encode e (k, m) st = Inr (sh, st')"
  shows "st' = log (CodecSplit (stripeno st) (data st)) st \<and> sh = shards_of e (k, m) (data st) \<and>
         length sh = k + m"
proof -
  from assms obtain sh0 where
    c: "Split (k, m) (data st) = Inr sh0" "Encode (parity e) (k, m) sh0 = Inr sh"
      "st' = log (CodecSplit (stripeno st) (data st)) st"
    by (auto simp: encode_def Let_def split: sum.splits if_splits)
  with Encode_length [OF c(2)] show ?thesis by (simp add: shards_of_def)
qed

lemma place_Inr:
  assumes "place e cfg shards st = Inr st'" "stripeno st = s"
  shows "\<exists>perm. s < length (distribution st) \<and>
         genRandomArr (draw e s) (wrap64 (dataShards cfg + parShards cfg)) = Inr perm \<and>
         distribution st' = (distribution st)[s := perm] \<and>
         trace st' = trace st @ write_events e s perm shards [0..<length shards] \<and>
         (\<forall>i. files st' i =
            (if i < length shards
             then Some ((case files st i of None \<Rightarrow> [] | Some c \<Rightarrow> c) @
                    (if write_fail e s i then [] else shards ! (perm ! i)))
             else files st i)) \<and>
         (\<forall>i < length shards. i < length (ofs st) \<and> ofs st' ! i = Some s \<and>
            \<not> open_fail e s i \<and> i < length perm \<and> perm ! i < length shards) \<and>
         (\<forall>i. \<not> i < length shards \<longrightarrow> ofs st' ! i = ofs st ! i)"
proof -
  from assms obtain perm where
    p: "genRandomArr (draw e s) (wrap64 (dataShards cfg + parShards cfg)) = Inr perm"
      "s < length (distribution st)"
    and w: "write_shards e shards [0..<length shards]
              (st\<lparr>distribution := (distribution st)[s := perm]\<rparr>) = Inr st'"
    by (auto simp: place_def split: sum.splits if_splits)
  let ?st3 = "st\<lparr>distribution := (distribution st)[s := perm]\<rparr>"
  have k3: "stripeno ?st3 = s" "distribution ?st3 ! s = perm"
    using p(2) assms(2) by simp_all
  from write_shards_keeps [OF w] have k4: "distribution st' = (distribution st)[s := perm]"
    by simp
  from write_shards_Inr [OF w _ k3] p k4 show ?thesis
    by (intro exI [of _ perm]) simp
qed

lemma stripe_Inr:
  assumes "stripe e cfg (k, m) st = Inr (b, st')" "stripeno st = s"
  shows "\<exists>perm. b = min (chunk e s) (min (length (data st)) (length (rest st))) \<and>
         \<not> read_fault e s \<and>
         data st' = take b (rest st) @ drop b (data st) \<and>
         rest st' = drop b (rest st) \<and>
         stripeno st' = s \<and>
         s < length (distribution st) \<and>
         genRandomArr (draw e s) (wrap64 (dataShards cfg + parShards cfg)) = Inr perm \<and>
         distribution st' = (distribution st)[s := perm] \<and>
         length (shards_of e (k, m) (data st')) = k + m \<and>
         length (ofs st') = length (ofs st) \<and>
         trace st' = trace st @ [ReadInput s b, CodecSplit s (data st')] @
           write_events e s perm (shards_of e (k, m) (data st')) [0..<k + m] \<and>
         (\<forall>i. files st' i =
            (if i < k + m
             then Some ((case files st i of None \<Rightarrow> [] | Some c \<Rightarrow> c) @
                    (if write_fail e s i then []
                     else shards_of e (k, m) (data st') ! (perm ! i)))
             else files st i)) \<and>
         (\<forall>i < k + m. i < length (ofs st) \<and> ofs st' ! i = Some s \<and>
            \<not> open_fail e s i \<and> i < length perm \<and> perm ! i < k + m) \<and>
         (\<forall>i. \<not> i < k + m \<longrightarrow> ofs st' ! i = ofs st ! i)"
proof -
  from stripe_Inr_parts [OF assms(1)] obtain st1 sh st2 where
    nf: "\<not> read_fault e s" and
    p: "read_stripe e st = (b, st1)" "encode e (k, m) st1 = Inr (sh, st2)"
       "place e cfg sh st2 = Inr st'"
    by (auto simp: assms(2))
  from p(1) have st1: "b = min (chunk e s) (min (length (data st)) (length (rest st)))"
    "data st1 = take b (rest st) @ drop b (data st)" "rest st1 = drop b (rest st)"
    "stripeno st1 = s" "distribution st1 = distribution st" "ofs st1 = ofs st"
    "files st1 = files st" "trace st1 = trace st @ [ReadInput s b]"
    by (auto simp: read_stripe_def Let_def assms(2))
  from encode_Inr [OF p(2)] have st2: "st2 = log (CodecSplit s (data st1)) st1"
    "sh = shards_of e (k, m) (data st1)" "length sh = k + m"
    by (auto simp: st1(4))
  have k2: "stripeno st2 = s" "distribution st2 = distribution st" "ofs st2 = ofs st"
    "files st2 = files st" "trace st2 = trace st @ [ReadInput s b, CodecSplit s (data st1)]"
    "data st2 = data st1" "rest st2 = rest st1"
    by (simp_all add: st2(1) st1(4,5,6,7,8))
  from place_keeps [OF p(3)] have k3: "data st' = data st1" "rest st' = rest st1"
    "stripeno st' = s" "length (ofs st') = length (ofs st)"
    by (simp_all add: k2)
  from place_Inr [OF p(3) k2(1)] obtain perm where
    P: "s < length (distribution st2)"
       "genRandomArr (draw e s) (wrap64 (dataShards cfg + parShards cfg)) = Inr perm"
       "distribution st' = (distribution st2)[s := perm]"
       "trace st' = trace st2 @ write_events e s perm sh [0..<length sh]"
       "\<forall>i. files st' i =
            (if i < length sh
             then Some ((case files st2 i of None \<Rightarrow> [] | Some c \<Rightarrow> c) @
                    (if write_fail e s i then [] else sh ! (perm ! i)))
             else files st2 i)"
       "\<forall>i < length sh. i < length (ofs st2) \<and> ofs st' ! i = Some s \<and>
            \<not> open_fail e s i \<and> i < length perm \<and> perm ! i < length sh"
       "\<forall>i. \<not> i < length sh \<longrightarrow> ofs st' ! i = ofs st2 ! i"
    by blast
  have sh': "shards_of e (k, m) (data st') = sh" by (simp add: k3 st2(2))
  show ?thesis
  proof (intro exI [of _ perm] conjI)
    show "b = min (chunk e s) (min (length (data st)) (length (rest st)))" by (rule st1(1))
    show "\<not> read_fault e s" by (rule nf)
    show "data st' = take b (rest st) @ drop b (data st)" by (simp add: k3 st1(2))
    show "rest st' = drop b (rest st)" by (simp add: k3 st1(3))
    show "stripeno st' = s" by (rule k3)
    show "s < length (distribution st)" using P(1) by (simp add: k2)
    show "genRandomArr (draw e s) (wrap64 (dataShards cfg + parShards cfg)) = Inr perm" by (rule P(2))
    show "distribution st' = (distribution st)[s := perm]" using P(3) by (simp add: k2)
    show "length (shards_of e (k, m) (data st')) = k + m" by (simp add: sh' st2(3))
    show "length (ofs st') = length (ofs st)" by (rule k3)
    show "trace st' = trace st @ [ReadInput s b, CodecSplit s (data st')] @
           write_events e s perm (shards_of e (k, m) (data st')) [0..<k + m]"
      using P(4) by (simp add: st2(2) [symmetric] k2 k3 st2(3))
    show "\<forall>i. files st' i =
            (if i < k + m
             then Some ((case files st i of None \<Rightarrow> [] | Some c \<Rightarrow> c) @
                    (if write_fail e s i then []
                     else shards_of e (k, m) (data st') ! (perm ! i)))
             else files st i)"
      using P(5) unfolding sh' k2 st2(3) .
    show "\<forall>i < k + m. i < length (ofs st) \<and> ofs st' ! i = Some s \<and>
            \<not> open_fail e s i \<and> i < length perm \<and> perm ! i < k + m"
      using P(6) unfolding k2 st2(3) .
    show "\<forall>i. \<not> i < k + m \<longrightarrow> ofs st' ! i = ofs st ! i"
      using P(7) unfolding k2 st2(3) .
  qed
qed

lemma loop_rule:
  assumes "I st"
    and "\<And>st out st'. I st \<Longrightarrow> stripe e cfg enc st = Inl (out, st') \<Longrightarrow> Q out st'"
    and "\<And>st b st'. I st \<Longrightarrow> stripe e cfg enc st = Inr (b, st') \<Longrightarrow> int b < S \<Longrightarrow>
           Q Returned (close_all st')"
    and "\<And>st b st'. I st \<Longrightarrow> stripe e cfg enc st = Inr (b, st') \<Longrightarrow> \<not> int b < S \<Longrightarrow>
           I (st'\<lparr>stripeno := stripeno st' + 1\<rparr>)"
  shows "Q (fst (loop e cfg enc S st)) (snd (loop e cfg enc S st))"
  using assms
proof (induction e cfg enc S st rule: loop.induct)
  case (1 e cfg enc S st)
  note I = "1.prems"(1) and stop = "1.prems"(2) and brk = "1.prems"(3) and cont = "1.prems"(4)
  show ?case
  proof (cases "stripe e cfg enc st")
    case (Inl r)
    obtain out st' where r: "r = (out, st')" by (cases r)
    from stop [OF I] Inl r show ?thesis
      by (simp add: loop.simps [of e cfg enc S st])
  next
    case (Inr y)
    obtain b st' where y: "y = (b, st')" by (cases y)
    show ?thesis
    proof (cases "int b < S")
      case True
      with brk [OF I] Inr y show ?thesis
        by (simp add: loop.simps [of e cfg enc S st])
    next
      case False
      from cont [OF I _ False] Inr y
      have "I (st'\<lparr>stripeno := stripeno st' + 1\<rparr>)" by simp
      from "1.IH" [OF Inr y [symmetric] False this stop brk cont] Inr y False show ?thesis
        by (simp add: loop.simps [of e cfg enc S st])
    qed
  qed
qed

section \<open>Runs that return, and the events of every run\<close>

lemma appended_append [simp]: "appended i (xs @ ys) = appended i xs @ appended i ys"
  by (simp add: appended_def)

lemma appended_Nil [simp]: "writes i tr = [] \<Longrightarrow> appended i tr = []"
  by (simp add: appended_def)

lemma appended_skip [simp]:
  "appended i (ReadInput s b # tr) = appended i tr"
  "appended i (CodecSplit s buf # tr) = appended i tr"
  "appended i (CloseInput # tr) = appended i tr"
  by (simp_all add: appended_def)

lemma closes_projections [simp]:
  "opened i (map (\<lambda>j. CloseDest j s) js) = []"
  "writes i (map (\<lambda>j. CloseDest j s) js) = []"
  by (induction js) simp_all

lemma closed_closes:
  "distinct js \<Longrightarrow> closed i (map (\<lambda>j. CloseDest j s) js) = (if i \<in> set js then [s] else [])"
  by (induction js) auto

lemma fold_close_prefix:
  assumes "\<forall>i < length (ofs st). ofs st ! i = Some s" "j \<le> length (ofs st)"
  shows "fold (\<lambda>i st'. case ofs st' ! i of None \<Rightarrow> st' | Some s \<Rightarrow> log (CloseDest i s) st') [0..<j] st
           = st\<lparr>trace := trace st @ map (\<lambda>i. CloseDest i s) [0..<j]\<rparr>"
  using assms(2)
proof (induction j)
  case 0
  then show ?case by simp
next
  case (Suc j)
  then have "j < length (ofs st)" by simp
  with assms(1) have "ofs st ! j = Some s" by simp
  with Suc show ?case by (simp add: log_def)
qed

lemma close_all_open:
  assumes "\<forall>i < length (ofs st). ofs st ! i = Some s"
  shows "close_all st = st\<lparr>trace := trace st @ map (\<lambda>i. CloseDest i s) [0..<length (ofs st)]\<rparr>"
  using fold_close_prefix [OF assms, of "length (ofs st)"] by (simp add: close_all_def)

lemma write_shards_Inl:
  "write_shards e shards is st \<noteq> Inl (Returned, st')"
proof (induction "is" arbitrary: st)
  case Nil
  then show ?case by simp
next
  case (Cons i "is")
  then show ?case by (simp add: Let_def)
qed

lemma place_Inl: "place e cfg shards st \<noteq> Inl (Returned, st')"
  by (simp add: place_def write_shards_Inl split: sum.splits)

lemma encode_Inl: "encode e enc st \<noteq> Inl (Returned, st')"
  by (simp add: encode_def Let_def split: sum.splits)

lemma stripe_Inl: "stripe e cfg enc st \<noteq> Inl (Returned, st')"
proof (cases "read_fault e (stripeno st)")
  case True
  then show ?thesis by (simp add: stripe_def)
next
  case False
  obtain b st1 where r: "read_stripe e st = (b, st1)"
    by (cases "read_stripe e st")
  show ?thesis
  proof (cases "encode e enc st1")
    case (Inl x)
    with False r encode_Inl [of e enc st1 st'] show ?thesis
      by (simp add: stripe_def)
  next
    case (Inr y)
    obtain shards st2 where y: "y = (shards, st2)" by (cases y)
    show ?thesis
    proof (cases "place e cfg shards st2")
      case (Inl x)
      with False r Inr y place_Inl [of e cfg shards st2 st'] show ?thesis
        by (simp add: stripe_def)
    next
      case Inr3: (Inr st3)
      with False r Inr y show ?thesis by (simp add: stripe_def)
    qed
  qed
qed

lemma stripe_step_projections:
  assumes step: "stripe e cfg (k, m) st = Inr (b, st')"
    and len: "length (ofs st) = k + m"
    and cl: "\<forall>i. closed i (trace st) = []"
    and inv: "\<forall>i < k + m. opened i (trace st) = [0..<stripeno st] \<and>
               map fst (writes i (trace st)) = [0..<stripeno st] \<and>
               (case files st i of None \<Rightarrow> [] | Some c \<Rightarrow> c) =
                 (case existing e i of None \<Rightarrow> [] | Some c \<Rightarrow> c) @ appended i (trace st)"
  shows "length (ofs st') = k + m \<and> stripeno st' = stripeno st \<and>
         (\<forall>i < length (ofs st'). ofs st' ! i = Some (stripeno st)) \<and>
         (\<forall>i. closed i (trace st') = []) \<and>
         (\<forall>i < k + m. opened i (trace st') = [0..<Suc (stripeno st)] \<and>
            map fst (writes i (trace st')) = [0..<Suc (stripeno st)] \<and>
            files st' i =
              Some ((case existing e i of None \<Rightarrow> [] | Some c \<Rightarrow> c) @ appended i (trace st')))"
proof -
  let ?s = "stripeno st"
  let ?sh = "shards_of e (k, m) (data st')"
  from stripe_Inr [OF step refl] obtain perm where
    S: "stripeno st' = ?s" "length (ofs st') = length (ofs st)"
       "trace st' = trace st @ [ReadInput ?s b, CodecSplit ?s (data st')] @
           write_events e ?s perm ?sh [0..<k + m]"
       "\<forall>i. files st' i =
            (if i < k + m
             then Some ((case files st i of None \<Rightarrow> [] | Some c \<Rightarrow> c) @
                    (if write_fail e ?s i then [] else ?sh ! (perm ! i)))
             else files st i)"
       "\<forall>i < k + m. i < length (ofs st) \<and> ofs st' ! i = Some ?s \<and>
            \<not> open_fail e ?s i \<and> i < length perm \<and> perm ! i < k + m"
    by blast
  have "\<forall>i < k + m. opened i (trace st') = [0..<Suc ?s] \<and>
            map fst (writes i (trace st')) = [0..<Suc ?s] \<and>
            files st' i =
              Some ((case existing e i of None \<Rightarrow> [] | Some c \<Rightarrow> c) @ appended i (trace st'))"
  proof (intro allI impI)
    fix i assume i: "i < k + m"
    with inv have I: "opened i (trace st) = [0..<?s]" "map fst (writes i (trace st)) = [0..<?s]"
      "(case files st i of None \<Rightarrow> [] | Some c \<Rightarrow> c) =
         (case existing e i of None \<Rightarrow> [] | Some c \<Rightarrow> c) @ appended i (trace st)"
      by simp_all
    have w: "writes i (write_events e ?s perm ?sh [0..<k + m]) =
               [(?s, ?sh ! (perm ! i), \<not> write_fail e ?s i)]"
      using i by (simp add: writes_write_events)
    have o: "opened i (write_events e ?s perm ?sh [0..<k + m]) = [?s]"
      using i by (simp add: opened_write_events)
    have a: "appended i (write_events e ?s perm ?sh [0..<k + m]) =
               (if write_fail e ?s i then [] else ?sh ! (perm ! i))"
      by (simp add: appended_def w)
    from S(4) i have f: "files st' i = Some ((case files st i of None \<Rightarrow> [] | Some c \<Rightarrow> c) @
                    (if write_fail e ?s i then [] else ?sh ! (perm ! i)))"
      by simp
    show "opened i (trace st') = [0..<Suc ?s] \<and>
            map fst (writes i (trace st')) = [0..<Suc ?s] \<and>
            files st' i =
              Some ((case existing e i of None \<Rightarrow> [] | Some c \<Rightarrow> c) @ appended i (trace st'))"
      unfolding S(3) f I(3) by (simp add: I(1,2) o w a)
  qed
  moreover have "\<forall>i. closed i (trace st') = []"
    unfolding S(3) using cl by simp
  moreover have "\<forall>i < length (ofs st'). ofs st' ! i = Some ?s"
    using S(2,5) len by simp
  ultimately show ?thesis using S(1,2) len by simp
qed

lemma loop_returned:
  assumes ret: "fst (loop e cfg (k, m) S st0) = Returned"
    and init: "length (ofs st0) = k + m" "\<forall>i. closed i (trace st0) = []"
      "\<forall>i < k + m. opened i (trace st0) = [0..<stripeno st0] \<and>
               map fst (writes i (trace st0)) = [0..<stripeno st0] \<and>
               (case files st0 i of None \<Rightarrow> [] | Some c \<Rightarrow> c) =
                 (case existing e i of None \<Rightarrow> [] | Some c \<Rightarrow> c) @ appended i (trace st0)"
  shows "\<exists>tr. trace (snd (loop e cfg (k, m) S st0)) =
                tr @ map (\<lambda>i. CloseDest i (stripeno (snd (loop e cfg (k, m) S st0)))) [0..<k + m] \<and>
              (\<forall>i. closed i tr = []) \<and>
              (\<forall>i < k + m.
                 opened i tr = [0..<Suc (stripeno (snd (loop e cfg (k, m) S st0)))] \<and>
                 map fst (writes i tr) = [0..<Suc (stripeno (snd (loop e cfg (k, m) S st0)))] \<and>
                 files (snd (loop e cfg (k, m) S st0)) i =
                   Some ((case existing e i of None \<Rightarrow> [] | Some c \<Rightarrow> c) @ appended i tr))"
proof -
  let ?I = "\<lambda>st. length (ofs st) = k + m \<and> (\<forall>i. closed i (trace st) = []) \<and>
     (\<forall>i < k + m. opened i (trace st) = [0..<stripeno st] \<and>
               map fst (writes i (trace st)) = [0..<stripeno st] \<and>
               (case files st i of None \<Rightarrow> [] | Some c \<Rightarrow> c) =
                 (case existing e i of None \<Rightarrow> [] | Some c \<Rightarrow> c) @ appended i (trace st))"
  let ?Q = "\<lambda>out st. out = Returned \<longrightarrow>
     (\<exists>tr. trace st = tr @ map (\<lambda>i. CloseDest i (stripeno st)) [0..<k + m] \<and>
              (\<forall>i. closed i tr = []) \<and>
              (\<forall>i < k + m.
                 opened i tr = [0..<Suc (stripeno st)] \<and>
                 map fst (writes i tr) = [0..<Suc (stripeno st)] \<and>
                 files st i = Some ((case existing e i of None \<Rightarrow> [] | Some c \<Rightarrow> c) @ appended i tr)))"
  have "?Q (fst (loop e cfg (k, m) S st0)) (snd (loop e cfg (k, m) S st0))"
  proof (rule loop_rule [where I = ?I and Q = ?Q])
    show "?I st0" using init by simp
  next
    fix st out st'
    assume "stripe e cfg (k, m) st = Inl (out, st')"
    with stripe_Inl [of e cfg "(k, m)" st st'] show "?Q out st'" by auto
  next
    fix st b st'
    assume I: "?I st" and step: "stripe e cfg (k, m) st = Inr (b, st')"
    from stripe_step_projections [OF step] I have
      P: "length (ofs st') = k + m" "stripeno st' = stripeno st"
         "\<forall>i < length (ofs st'). ofs st' ! i = Some (stripeno st)"
         "\<forall>i. closed i (trace st') = []"
         "\<forall>i < k + m. opened i (trace st') = [0..<Suc (stripeno st)] \<and>
            map fst (writes i (trace st')) = [0..<Suc (stripeno st)] \<and>
            files st' i =
              Some ((case existing e i of None \<Rightarrow> [] | Some c \<Rightarrow> c) @ appended i (trace st'))"
      by simp_all
    from close_all_open [OF P(3)] P(1)
    have c: "close_all st' =
               st'\<lparr>trace := trace st' @ map (\<lambda>i. CloseDest i (stripeno st)) [0..<k + m]\<rparr>"
      by simp
    show "?Q Returned (close_all st')"
      unfolding c using P(2,4,5) by (intro impI exI [of _ "trace st'"]) simp
  next
    fix st b st'
    assume I: "?I st" and step: "stripe e cfg (k, m) st = Inr (b, st')"
    from stripe_step_projections [OF step] I have
      P: "length (ofs st') = k + m" "stripeno st' = stripeno st"
         "\<forall>i. closed i (trace st') = []"
         "\<forall>i < k + m. opened i (trace st') = [0..<Suc (stripeno st)] \<and>
            map fst (writes i (trace st')) = [0..<Suc (stripeno st)] \<and>
            files st' i =
              Some ((case existing e i of None \<Rightarrow> [] | Some c \<Rightarrow> c) @ appended i (trace st'))"
      by simp_all
    show "?I (st'\<lparr>stripeno := stripeno st' + 1\<rparr>)"
      using P by simp
  qed
  with ret show ?thesis by simp
qed

lemma main_cases:
  "(fst (main e cfg args) \<noteq> Returned \<and>
    set (trace (snd (main e cfg args))) \<subseteq> {OpenInput, StatInput, HashPass, SeekStart, CloseInput} \<and>
    files (snd (main e cfg args)) = existing e) \<or>
   (\<exists>content S st0.
      1 \<le> dataShards cfg \<and> 0 \<le> parShards cfg \<and> dataShards cfg + parShards cfg \<le> 256 \<and>
      input e = Some content \<and> 0 < S \<and>
      main e cfg args = close_input (loop e cfg (nat (dataShards cfg), nat (parShards cfg)) S st0) \<and>
      stripeno st0 = 0 \<and> rest st0 = content \<and> length (data st0) = nat S \<and>
      length (ofs st0) = nat (dataShards cfg) + nat (parShards cfg) \<and>
      files st0 = existing e \<and> trace st0 = [OpenInput, StatInput, HashPass, SeekStart])"
proof -
  let ?k = "dataShards cfg" and ?m = "parShards cfg"
  show ?thesis
  proof (cases "1 \<le> ?k \<and> 0 \<le> ?m \<and> ?k + ?m \<le> 256")
    case False
    then show ?thesis
      by (auto simp: main_def New_def Let_def)
  next
    case True
    then have w: "wrap64 (?k + ?m) = ?k + ?m" by (simp add: wrap64_id is_int64_def)
    from True have n: "New ?k ?m = Inr (nat ?k, nat ?m)" by (simp add: New_def)
    from True have l: "nat (?k + ?m) = nat ?k + nat ?m" by (simp add: nat_add_distrib)
    show ?thesis
    proof (cases "input e")
      case None
      then show ?thesis using True w n by (simp add: main_def Let_def)
    next
      case (Some content)
      let ?S = "wrap64 (wrap64 ?k * blockSize cfg)"
      let ?N = "go_quot (wrap64 (wrap64 (int (length content) + ?S) - 1)) ?S"
      let ?st0 = "\<lparr>data = replicate (nat ?S) 0, rest = content, stripeno = 0,
                   distribution = replicate (nat ?N) [], ofs = replicate (nat (?k + ?m)) None,
                   files = existing e, trace = [OpenInput, StatInput, HashPass, SeekStart]\<rparr>"
      show ?thesis
      proof (cases "length args = 1 \<and> \<not> stat_fault e \<and> \<not> hash_fault e \<and> 0 < ?S \<and> 0 \<le> ?N")
        case good: True
        then have "main e cfg args = close_input (loop e cfg (nat ?k, nat ?m) ?S ?st0)"
          using True w n Some by (simp add: main_def Let_def log_def)
        moreover have "stripeno ?st0 = 0" "rest ?st0 = content" "length (data ?st0) = nat ?S"
          "length (ofs ?st0) = nat ?k + nat ?m" "files ?st0 = existing e"
          "trace ?st0 = [OpenInput, StatInput, HashPass, SeekStart]"
          using l by simp_all
        ultimately show ?thesis using True Some good by blast
      next
        case False
        then have "fst (main e cfg args) \<noteq> Returned \<and>
          set (trace (snd (main e cfg args))) \<subseteq> {OpenInput, StatInput, HashPass, SeekStart, CloseInput} \<and>
          files (snd (main e cfg args)) = existing e"
          using True w n Some by (auto simp: main_def Let_def close_input_def log_def)
        then show ?thesis by blast
      qed
    qed
  qed
qed

lemma write_shards_sound:
  assumes "write_shards e shards is st = Inl (out, st') \<or> write_shards e shards is st = Inr st'"
    and "stripeno st = s" "distribution st ! s = perm"
  shows "distribution st' = distribution st \<and> stripeno st' = s \<and>
         (\<exists>evs. trace st' = trace st @ evs \<and>
            (\<forall>ev \<in> set evs. (\<exists>i. ev = OpenDest s i) \<or>
               (\<exists>i. i < length perm \<and> s < length (distribution st) \<and>
                    ev = WriteDest s i (shards ! (perm ! i)) (\<not> write_fail e s i))))"
  using assms
proof (induction "is" arbitrary: st)
  case Nil
  then show ?case by simp
next
  case (Cons i "is")
  let ?st0 = "log (OpenDest s i) st"
  let ?st1 = "write_dest e i (shards ! (perm ! i)) (open_dest i ?st0)"
  note sp = Cons.prems(2,3)
  show ?case
  proof (cases "s < length (distribution st) \<and> i < length perm \<and> i < length (ofs st) \<and>
                \<not> open_fail e s i \<and> perm ! i < length shards")
    case True
    with Cons.prems(1) have
      r: "write_shards e shards is ?st1 = Inl (out, st') \<or> write_shards e shards is ?st1 = Inr st'"
      by (simp add: Let_def sp)
    have k: "stripeno ?st1 = s" "distribution ?st1 ! s = perm" by (simp_all add: sp)
    from Cons.IH [OF r k] obtain evs where
      E: "distribution st' = distribution st" "stripeno st' = s" "trace st' = trace ?st1 @ evs"
         "\<forall>ev \<in> set evs. (\<exists>i. ev = OpenDest s i) \<or>
               (\<exists>i. i < length perm \<and> s < length (distribution st) \<and>
                    ev = WriteDest s i (shards ! (perm ! i)) (\<not> write_fail e s i))"
      by auto
    have tr1: "trace ?st1 =
        trace st @ [OpenDest s i, WriteDest s i (shards ! (perm ! i)) (\<not> write_fail e s i)]"
      by (simp add: trace_write_dest sp)
    let ?evs = "[OpenDest s i, WriteDest s i (shards ! (perm ! i)) (\<not> write_fail e s i)] @ evs"
    have "trace st' = trace st @ ?evs" using E(3) tr1 by simp
    moreover have "\<forall>ev \<in> set ?evs. (\<exists>i. ev = OpenDest s i) \<or>
               (\<exists>i. i < length perm \<and> s < length (distribution st) \<and>
                    ev = WriteDest s i (shards ! (perm ! i)) (\<not> write_fail e s i))"
      using E(4) True by auto
    ultimately show ?thesis using E(1,2) by blast
  next
    case False
    with Cons.prems(1) have "st' = st \<or> st' = ?st0 \<or> st' = open_dest i ?st0"
      by (auto simp: Let_def sp split: if_splits)
    then have "distribution st' = distribution st \<and> stripeno st' = s \<and>
       (trace st' = trace st @ [] \<or> trace st' = trace st @ [OpenDest s i])"
      by (auto simp: sp)
    then show ?thesis by fastforce
  qed
qed

lemma place_sound:
  assumes "place e cfg shards st = Inl (out, st') \<or> place e cfg shards st = Inr st'"
    and "stripeno st = s"
  shows "stripeno st' = s \<and> length (distribution st') = length (distribution st) \<and>
         (\<forall>s'. s' \<noteq> s \<longrightarrow> distribution st' ! s' = distribution st ! s') \<and>
         (\<exists>evs. trace st' = trace st @ evs \<and>
            (\<forall>ev \<in> set evs. (\<exists>i. ev = OpenDest s i) \<or>
               (\<exists>i. i < length (distribution st' ! s) \<and> s < length (distribution st') \<and>
                    genRandomArr (draw e s) (wrap64 (dataShards cfg + parShards cfg))
                      = Inr (distribution st' ! s) \<and>
                    ev = WriteDest s i (shards ! (distribution st' ! s ! i)) (\<not> write_fail e s i))))"
proof (cases "genRandomArr (draw e s) (wrap64 (dataShards cfg + parShards cfg))")
  case (Inl p)
  with assms have "st' = st" by (simp add: place_def)
  with assms(2) show ?thesis by (intro conjI exI [of _ "[]"]) simp_all
next
  case (Inr perm)
  show ?thesis
  proof (cases "s < length (distribution st)")
    case False
    with assms Inr have "st' = st" by (simp add: place_def)
    with assms(2) show ?thesis by (intro conjI exI [of _ "[]"]) simp_all
  next
    case True
    let ?st3 = "st\<lparr>distribution := (distribution st)[s := perm]\<rparr>"
    from assms Inr True have
      w: "write_shards e shards [0..<length shards] ?st3 = Inl (out, st') \<or>
          write_shards e shards [0..<length shards] ?st3 = Inr st'"
      by (simp add: place_def)
    have k3: "stripeno ?st3 = s" "distribution ?st3 ! s = perm"
      using True assms(2) by simp_all
    from write_shards_sound [OF w k3] obtain evs where
      E0: "distribution st' = distribution ?st3" "stripeno st' = s"
         "trace st' = trace ?st3 @ evs"
         "\<forall>ev \<in> set evs. (\<exists>i. ev = OpenDest s i) \<or>
               (\<exists>i. i < length perm \<and> s < length (distribution ?st3) \<and>
                    ev = WriteDest s i (shards ! (perm ! i)) (\<not> write_fail e s i))"
      by blast
    have E: "distribution st' = (distribution st)[s := perm]" "stripeno st' = s"
         "trace st' = trace st @ evs"
      using E0(1,2,3) by simp_all
    have E4: "\<forall>ev \<in> set evs. (\<exists>i. ev = OpenDest s i) \<or>
               (\<exists>i. i < length perm \<and>
                    ev = WriteDest s i (shards ! (perm ! i)) (\<not> write_fail e s i))"
      using E0(4) by blast
    from E(1) True have p: "distribution st' ! s = perm" "s < length (distribution st')" by simp_all
    have a: "length (distribution st') = length (distribution st)" using E(1) by simp
    have b: "\<forall>s'. s' \<noteq> s \<longrightarrow> distribution st' ! s' = distribution st ! s'"
      using E(1) by simp
    have c: "\<forall>ev \<in> set evs. (\<exists>i. ev = OpenDest s i) \<or>
               (\<exists>i. i < length (distribution st' ! s) \<and> s < length (distribution st') \<and>
                    genRandomArr (draw e s) (wrap64 (dataShards cfg + parShards cfg))
                      = Inr (distribution st' ! s) \<and>
                    ev = WriteDest s i (shards ! (distribution st' ! s ! i)) (\<not> write_fail e s i))"
      unfolding p(1)
    proof
      fix ev assume "ev \<in> set evs"
      with E4 have "(\<exists>i. ev = OpenDest s i) \<or>
               (\<exists>i. i < length perm \<and>
                    ev = WriteDest s i (shards ! (perm ! i)) (\<not> write_fail e s i))"
        by simp
      then show "(\<exists>i. ev = OpenDest s i) \<or>
               (\<exists>i. i < length perm \<and> s < length (distribution st') \<and>
                    genRandomArr (draw e s) (wrap64 (dataShards cfg + parShards cfg)) = Inr perm \<and>
                    ev = WriteDest s i (shards ! (perm ! i)) (\<not> write_fail e s i))"
        using p(2) Inr by blast
    qed
    from E(2) a b E(3) c show ?thesis by (intro conjI exI [of _ evs])
  qed
qed

lemma encode_Inl_state:
  "encode e enc st = Inl (out, st') \<Longrightarrow>
     st' = st \<or> st' = log (CodecSplit (stripeno st) (data st)) st"
  by (auto simp: encode_def Let_def split: sum.splits if_splits)

lemma stripe_sound:
  assumes "stripe e cfg (k, m) st = Inl (out, st') \<or> stripe e cfg (k, m) st = Inr (b, st')"
    and "stripeno st = s"
  shows "stripeno st' = s \<and> length (distribution st') = length (distribution st) \<and>
         (\<forall>s'. s' \<noteq> s \<longrightarrow> distribution st' ! s' = distribution st ! s') \<and>
         (\<exists>evs buf0. trace st' = trace st @ evs \<and>
            (\<forall>buf. CodecSplit s buf \<in> set evs \<longrightarrow> buf = buf0) \<and>
            (\<forall>ev \<in> set evs. (\<exists>b. ev = ReadInput s b) \<or> (\<exists>buf. ev = CodecSplit s buf) \<or>
               (\<exists>i. ev = OpenDest s i) \<or>
               (\<exists>i. i < length (distribution st' ! s) \<and> s < length (distribution st') \<and>
                    genRandomArr (draw e s) (wrap64 (dataShards cfg + parShards cfg))
                      = Inr (distribution st' ! s) \<and>
                    CodecSplit s buf0 \<in> set evs \<and>
                    ev = WriteDest s i (shards_of e (k, m) buf0 ! (distribution st' ! s ! i))
                           (\<not> write_fail e s i))))"
proof -
  obtain b1 st1 where r: "read_stripe e st = (b1, st1)"
    by (cases "read_stripe e st")
  then have st1: "stripeno st1 = s" "distribution st1 = distribution st"
    "trace st1 = trace st @ [ReadInput s b1]"
    by (auto simp: read_stripe_def Let_def assms(2))
  let ?buf = "data st1"
  let ?st2 = "log (CodecSplit s ?buf) st1"
  let ?W = "\<lambda>evs ev. \<exists>i. i < length (distribution st' ! s) \<and> s < length (distribution st') \<and>
                    genRandomArr (draw e s) (wrap64 (dataShards cfg + parShards cfg))
                      = Inr (distribution st' ! s) \<and>
                    CodecSplit s ?buf \<in> set evs \<and>
                    ev = WriteDest s i (shards_of e (k, m) ?buf ! (distribution st' ! s ! i))
                           (\<not> write_fail e s i)"
  have "\<exists>evs. stripeno st' = s \<and> length (distribution st') = length (distribution st) \<and>
         (\<forall>s'. s' \<noteq> s \<longrightarrow> distribution st' ! s' = distribution st ! s') \<and>
         trace st' = trace st @ evs \<and>
         (\<forall>buf. CodecSplit s buf \<in> set evs \<longrightarrow> buf = ?buf) \<and>
         (\<forall>ev \<in> set evs. (\<exists>b. ev = ReadInput s b) \<or> (\<exists>buf. ev = CodecSplit s buf) \<or>
               (\<exists>i. ev = OpenDest s i) \<or> ?W evs ev)"
  proof (cases "read_fault e s")
    case True
    with assms have "st' = st" by (simp add: stripe_def)
    with assms(2) show ?thesis by (intro exI [of _ "[]"]) simp
  next
    case False
    show ?thesis
    proof (cases "encode e (k, m) st1")
      case (Inl x)
      with assms False r have "encode e (k, m) st1 = Inl (out, st')"
        by (simp add: stripe_def assms(2))
      from encode_Inl_state [OF this] have "st' = st1 \<or> st' = ?st2" by (simp add: st1)
      then show ?thesis
      proof
        assume "st' = st1"
        then show ?thesis by (intro exI [of _ "[ReadInput s b1]"]) (simp add: st1)
      next
        assume "st' = ?st2"
        then show ?thesis
          by (intro exI [of _ "[ReadInput s b1, CodecSplit s ?buf]"]) (simp add: st1)
      qed
    next
      case (Inr y)
      obtain sh st2 where y: "y = (sh, st2)" by (cases y)
      from encode_Inr [of e k m st1 sh st2] Inr y have
        st2: "st2 = ?st2" "sh = shards_of e (k, m) ?buf"
        by (simp_all add: st1)
      from assms False r Inr y have
        p: "place e cfg sh st2 = Inl (out, st') \<or> place e cfg sh st2 = Inr st'"
        by (auto simp: stripe_def assms(2) split: sum.splits)
      have k2: "stripeno st2 = s" "distribution st2 = distribution st"
        "trace st2 = trace st @ [ReadInput s b1, CodecSplit s ?buf]"
        by (simp_all add: st2 st1)
      from place_sound [OF p k2(1)] obtain evs where
        E: "stripeno st' = s" "length (distribution st') = length (distribution st)"
           "\<forall>s'. s' \<noteq> s \<longrightarrow> distribution st' ! s' = distribution st ! s'"
           "trace st' = trace st2 @ evs"
           "\<forall>ev \<in> set evs. (\<exists>i. ev = OpenDest s i) \<or>
                 (\<exists>i. i < length (distribution st' ! s) \<and> s < length (distribution st') \<and>
                      genRandomArr (draw e s) (wrap64 (dataShards cfg + parShards cfg))
                        = Inr (distribution st' ! s) \<and>
                      ev = WriteDest s i (sh ! (distribution st' ! s ! i)) (\<not> write_fail e s i))"
        unfolding k2(2) by blast
      let ?evs = "[ReadInput s b1, CodecSplit s ?buf] @ evs"
      have t: "trace st' = trace st @ ?evs" using E(4) k2(3) by simp
      have u: "\<forall>buf. CodecSplit s buf \<in> set ?evs \<longrightarrow> buf = ?buf"
      proof (intro allI impI)
        fix buf assume "CodecSplit s buf \<in> set ?evs"
        then have "buf = ?buf \<or> CodecSplit s buf \<in> set evs" by simp
        moreover have "CodecSplit s buf \<notin> set evs" using E(5) by fastforce
        ultimately show "buf = ?buf" by simp
      qed
      have v: "\<forall>ev \<in> set ?evs. (\<exists>b. ev = ReadInput s b) \<or> (\<exists>buf. ev = CodecSplit s buf) \<or>
                 (\<exists>i. ev = OpenDest s i) \<or> ?W ?evs ev"
      proof
        fix ev assume "ev \<in> set ?evs"
        then consider "ev = ReadInput s b1" | "ev = CodecSplit s ?buf" | "ev \<in> set evs"
          by auto
        then show "(\<exists>b. ev = ReadInput s b) \<or> (\<exists>buf. ev = CodecSplit s buf) \<or>
                 (\<exists>i. ev = OpenDest s i) \<or> ?W ?evs ev"
        proof cases
          case 1
          then show ?thesis by simp
        next
          case 2
          then show ?thesis by simp
        next
          case 3
          with E(5) have "(\<exists>i. ev = OpenDest s i) \<or>
                 (\<exists>i. i < length (distribution st' ! s) \<and> s < length (distribution st') \<and>
                      genRandomArr (draw e s) (wrap64 (dataShards cfg + parShards cfg))
                        = Inr (distribution st' ! s) \<and>
                      ev = WriteDest s i (sh ! (distribution st' ! s ! i)) (\<not> write_fail e s i))"
            by simp
          then show ?thesis
          proof
            assume "\<exists>i. ev = OpenDest s i"
            then show ?thesis by simp
          next
            assume "\<exists>i. i < length (distribution st' ! s) \<and> s < length (distribution st') \<and>
                      genRandomArr (draw e s) (wrap64 (dataShards cfg + parShards cfg))
                        = Inr (distribution st' ! s) \<and>
                      ev = WriteDest s i (sh ! (distribution st' ! s ! i)) (\<not> write_fail e s i)"
            then obtain i where "i < length (distribution st' ! s)" "s < length (distribution st')"
              "genRandomArr (draw e s) (wrap64 (dataShards cfg + parShards cfg))
                        = Inr (distribution st' ! s)"
              "ev = WriteDest s i (sh ! (distribution st' ! s ! i)) (\<not> write_fail e s i)"
              by blast
            then have "?W ?evs ev" unfolding st2(2) by (intro exI [of _ i]) simp
            then show ?thesis by simp
          qed
        qed
      qed
      from E(1,2,3) t u v show ?thesis by (intro exI [of _ ?evs] conjI)
    qed
  qed
  then obtain evs where
    "stripeno st' = s" "length (distribution st') = length (distribution st)"
    "\<forall>s'. s' \<noteq> s \<longrightarrow> distribution st' ! s' = distribution st ! s'"
    "trace st' = trace st @ evs \<and>
         (\<forall>buf. CodecSplit s buf \<in> set evs \<longrightarrow> buf = ?buf) \<and>
         (\<forall>ev \<in> set evs. (\<exists>b. ev = ReadInput s b) \<or> (\<exists>buf. ev = CodecSplit s buf) \<or>
               (\<exists>i. ev = OpenDest s i) \<or> ?W evs ev)"
    by blast
  then show ?thesis by (intro conjI exI [of _ evs] exI [of _ ?buf]) simp_all
qed

lemma sound_upto_quiet_events:
  assumes "sound_upto e cfg enc n st" "trace st' = trace st @ evs"
    and "distribution st' = distribution st"
    and "\<forall>ev \<in> set evs. (\<forall>s i bs ok. ev \<noteq> WriteDest s i bs ok) \<and> (\<forall>s buf. ev \<noteq> CodecSplit s buf)"
  shows "sound_upto e cfg enc n st'"
proof -
  have nw: "\<And>s i bs ok. WriteDest s i bs ok \<notin> set evs"
    and nc: "\<And>s buf. CodecSplit s buf \<notin> set evs"
    using assms(4) by blast+
  have w: "\<And>s i bs ok. WriteDest s i bs ok \<in> set (trace st') \<longleftrightarrow> WriteDest s i bs ok \<in> set (trace st)"
    using assms(2) nw by simp
  have c: "\<And>s buf. CodecSplit s buf \<in> set (trace st') \<longleftrightarrow> CodecSplit s buf \<in> set (trace st)"
    using assms(2) nc by simp
  from assms(1) show ?thesis
    unfolding sound_upto_def w c assms(3) .
qed

lemma close_fold_events:
  "\<exists>evs. trace (fold (\<lambda>i st'. case ofs st' ! i of None \<Rightarrow> st' | Some s \<Rightarrow> log (CloseDest i s) st') js st)
            = trace st @ evs \<and>
         (\<forall>ev \<in> set evs. \<exists>i s. ev = CloseDest i s) \<and>
         distribution (fold (\<lambda>i st'. case ofs st' ! i of None \<Rightarrow> st' | Some s \<Rightarrow> log (CloseDest i s) st') js st)
            = distribution st"
proof (induction js arbitrary: st)
  case Nil
  then show ?case by simp
next
  case (Cons j js)
  let ?f = "\<lambda>i st'. case ofs st' ! i of None \<Rightarrow> st' | Some s \<Rightarrow> log (CloseDest i s) st'"
  from Cons.IH [of "?f j st"] obtain evs where
    E: "trace (fold ?f js (?f j st)) = trace (?f j st) @ evs"
       "\<forall>ev \<in> set evs. \<exists>i s. ev = CloseDest i s"
       "distribution (fold ?f js (?f j st)) = distribution (?f j st)"
    by blast
  show ?case
  proof (cases "ofs st ! j")
    case None
    with E show ?thesis by (intro exI [of _ evs]) simp
  next
    case (Some s)
    with E show ?thesis by (intro exI [of _ "CloseDest j s # evs"]) simp
  qed
qed

lemma sound_upto_close_all:
  assumes "sound_upto e cfg enc n st"
  shows "sound_upto e cfg enc n (close_all st)"
proof -
  from close_fold_events [of "[0..<length (ofs st)]" st] obtain evs where
    "trace (close_all st) = trace st @ evs" "\<forall>ev \<in> set evs. \<exists>i s. ev = CloseDest i s"
    "distribution (close_all st) = distribution st"
    unfolding close_all_def by blast
  with sound_upto_quiet_events [OF assms, of "close_all st" evs] show ?thesis by auto
qed

lemma sound_upto_stripe:
  assumes inv: "sound_upto e cfg (k, m) n st" and n: "stripeno st = n"
    and step: "stripe e cfg (k, m) st = Inl (out, st') \<or> stripe e cfg (k, m) st = Inr (b, st')"
  shows "sound_upto e cfg (k, m) (Suc n) st'"
proof -
  let ?G = "\<lambda>s. genRandomArr (draw e s) (wrap64 (dataShards cfg + parShards cfg))"
  from stripe_sound [OF step n] obtain evs buf0 where
    S: "length (distribution st') = length (distribution st)"
       "\<forall>s'. s' \<noteq> n \<longrightarrow> distribution st' ! s' = distribution st ! s'"
       "trace st' = trace st @ evs"
       "\<forall>buf. CodecSplit n buf \<in> set evs \<longrightarrow> buf = buf0"
    and shape: "\<forall>ev \<in> set evs. (\<exists>b. ev = ReadInput n b) \<or> (\<exists>buf. ev = CodecSplit n buf) \<or>
               (\<exists>i. ev = OpenDest n i) \<or>
               (\<exists>i. i < length (distribution st' ! n) \<and> n < length (distribution st') \<and>
                    ?G n = Inr (distribution st' ! n) \<and>
                    CodecSplit n buf0 \<in> set evs \<and>
                    ev = WriteDest n i (shards_of e (k, m) buf0 ! (distribution st' ! n ! i))
                           (\<not> write_fail e n i))"
    by blast
  from inv have
    old_w: "\<And>s i bs ok. WriteDest s i bs ok \<in> set (trace st) \<Longrightarrow>
        s < n \<and> s < length (distribution st) \<and> i < length (distribution st ! s) \<and>
        ?G s = Inr (distribution st ! s) \<and> ok = (\<not> write_fail e s i) \<and>
        (\<exists>buf. CodecSplit s buf \<in> set (trace st) \<and>
               bs = shards_of e (k, m) buf ! (distribution st ! s ! i))"
    and old_c: "\<And>s buf. CodecSplit s buf \<in> set (trace st) \<Longrightarrow> s < n"
    and old_u: "\<And>s buf buf'. CodecSplit s buf \<in> set (trace st) \<Longrightarrow>
                  CodecSplit s buf' \<in> set (trace st) \<Longrightarrow> buf = buf'"
    unfolding sound_upto_def by blast+
  have new_c: "\<And>s buf. CodecSplit s buf \<in> set evs \<Longrightarrow> s = n \<and> buf = buf0"
  proof -
    fix s buf assume a: "CodecSplit s buf \<in> set evs"
    with shape have "s = n" by fastforce
    with a S(4) show "s = n \<and> buf = buf0" by simp
  qed
  have new_w: "\<And>s i bs ok. WriteDest s i bs ok \<in> set evs \<Longrightarrow>
        s = n \<and> n < length (distribution st') \<and> i < length (distribution st' ! n) \<and>
        ?G n = Inr (distribution st' ! n) \<and> ok = (\<not> write_fail e n i) \<and>
        CodecSplit n buf0 \<in> set evs \<and>
        bs = shards_of e (k, m) buf0 ! (distribution st' ! n ! i)"
  proof -
    fix s i bs ok assume "WriteDest s i bs ok \<in> set evs"
    with shape have "(\<exists>b. WriteDest s i bs ok = ReadInput n b) \<or>
               (\<exists>buf. WriteDest s i bs ok = CodecSplit n buf) \<or>
               (\<exists>i'. WriteDest s i bs ok = OpenDest n i') \<or>
               (\<exists>i'. i' < length (distribution st' ! n) \<and> n < length (distribution st') \<and>
                    ?G n = Inr (distribution st' ! n) \<and>
                    CodecSplit n buf0 \<in> set evs \<and>
                    WriteDest s i bs ok =
                      WriteDest n i' (shards_of e (k, m) buf0 ! (distribution st' ! n ! i'))
                           (\<not> write_fail e n i'))"
      by blast
    then show "s = n \<and> n < length (distribution st') \<and> i < length (distribution st' ! n) \<and>
        ?G n = Inr (distribution st' ! n) \<and> ok = (\<not> write_fail e n i) \<and>
        CodecSplit n buf0 \<in> set evs \<and>
        bs = shards_of e (k, m) buf0 ! (distribution st' ! n ! i)"
      by auto
  qed
  show ?thesis
    unfolding sound_upto_def S(3)
  proof (intro conjI allI impI)
    fix s i bs ok assume "WriteDest s i bs ok \<in> set (trace st @ evs)"
    then consider (old) "WriteDest s i bs ok \<in> set (trace st)" | (new) "WriteDest s i bs ok \<in> set evs"
      by auto
    then have "s < Suc n \<and> s < length (distribution st') \<and> i < length (distribution st' ! s) \<and>
        ?G s = Inr (distribution st' ! s) \<and> ok = (\<not> write_fail e s i) \<and>
        (\<exists>buf. CodecSplit s buf \<in> set (trace st @ evs) \<and>
               bs = shards_of e (k, m) buf ! (distribution st' ! s ! i))"
    proof cases
      case old
      from old_w [OF old] obtain buf where
        o: "s < n" "s < length (distribution st)" "i < length (distribution st ! s)"
           "?G s = Inr (distribution st ! s)" "ok = (\<not> write_fail e s i)"
           "CodecSplit s buf \<in> set (trace st)"
           "bs = shards_of e (k, m) buf ! (distribution st ! s ! i)"
        by blast
      from o(1) S(2) have d: "distribution st' ! s = distribution st ! s" by simp
      from o show ?thesis unfolding d S(1) by auto
    next
      case new
      from new_w [OF new] show ?thesis by auto
    qed
    then show "s < Suc n" "s < length (distribution st')" "i < length (distribution st' ! s)"
      "?G s = Inr (distribution st' ! s)" "ok = (\<not> write_fail e s i)"
      "\<exists>buf. CodecSplit s buf \<in> set (trace st @ evs) \<and>
               bs = shards_of e (k, m) buf ! (distribution st' ! s ! i)"
      by simp_all
  next
    fix s buf assume "CodecSplit s buf \<in> set (trace st @ evs)"
    then have "CodecSplit s buf \<in> set (trace st) \<or> CodecSplit s buf \<in> set evs" by simp
    then show "s < Suc n" using old_c new_c by (auto simp: less_Suc_eq)
  next
    fix s buf buf'
    assume "CodecSplit s buf \<in> set (trace st @ evs)" "CodecSplit s buf' \<in> set (trace st @ evs)"
    then have a: "CodecSplit s buf \<in> set (trace st) \<or> CodecSplit s buf \<in> set evs"
      and b: "CodecSplit s buf' \<in> set (trace st) \<or> CodecSplit s buf' \<in> set evs"
      by simp_all
    from a b show "buf = buf'"
    proof (elim disjE)
      assume "CodecSplit s buf \<in> set (trace st)" "CodecSplit s buf' \<in> set (trace st)"
      then show ?thesis by (rule old_u)
    next
      assume "CodecSplit s buf \<in> set (trace st)" "CodecSplit s buf' \<in> set evs"
      with old_c new_c show ?thesis by fastforce
    next
      assume "CodecSplit s buf \<in> set evs" "CodecSplit s buf' \<in> set (trace st)"
      with old_c new_c show ?thesis by fastforce
    next
      assume "CodecSplit s buf \<in> set evs" "CodecSplit s buf' \<in> set evs"
      with new_c show ?thesis by blast
    qed
  qed
qed

lemma loop_sound:
  assumes "sound_upto e cfg (k, m) (stripeno st0) st0"
  shows "\<exists>n. sound_upto e cfg (k, m) n (snd (loop e cfg (k, m) S st0))"
proof (rule loop_rule [where I = "\<lambda>st. sound_upto e cfg (k, m) (stripeno st) st"
      and Q = "\<lambda>out st. \<exists>n. sound_upto e cfg (k, m) n st"])
  show "sound_upto e cfg (k, m) (stripeno st0) st0" by (rule assms)
next
  fix st out st'
  assume "sound_upto e cfg (k, m) (stripeno st) st" "stripe e cfg (k, m) st = Inl (out, st')"
  then have "sound_upto e cfg (k, m) (Suc (stripeno st)) st'"
    by (intro sound_upto_stripe [where st = st and out = out and b = 0]) simp_all
  then show "\<exists>n. sound_upto e cfg (k, m) n st'" ..
next
  fix st b st'
  assume "sound_upto e cfg (k, m) (stripeno st) st" "stripe e cfg (k, m) st = Inr (b, st')"
  then have "sound_upto e cfg (k, m) (Suc (stripeno st)) st'"
    by (intro sound_upto_stripe [where st = st and out = Returned and b = b]) simp_all
  then have "sound_upto e cfg (k, m) (Suc (stripeno st)) (close_all st')"
    by (rule sound_upto_close_all)
  then show "\<exists>n. sound_upto e cfg (k, m) n (close_all st')" ..
next
  fix st b st'
  assume "sound_upto e cfg (k, m) (stripeno st) st" and step: "stripe e cfg (k, m) st = Inr (b, st')"
  then have "sound_upto e cfg (k, m) (Suc (stripeno st)) st'"
    by (intro sound_upto_stripe [where st = st and out = Returned and b = b]) simp_all
  moreover from stripe_continues [OF step] have "stripeno st' = stripeno st" by simp
  ultimately show "sound_upto e cfg (k, m) (stripeno (st'\<lparr>stripeno := stripeno st' + 1\<rparr>))
                     (st'\<lparr>stripeno := stripeno st' + 1\<rparr>)"
    by (simp add: sound_upto_def)
qed

lemma main_sound:
  "\<exists>n. sound_upto e cfg (nat (dataShards cfg), nat (parShards cfg)) n (snd (main e cfg args))"
proof -
  let ?enc = "(nat (dataShards cfg), nat (parShards cfg))"
  from main_cases [of e cfg args] show ?thesis
  proof
    assume "fst (main e cfg args) \<noteq> Returned \<and>
      set (trace (snd (main e cfg args))) \<subseteq> {OpenInput, StatInput, HashPass, SeekStart, CloseInput} \<and>
      files (snd (main e cfg args)) = existing e"
    then have "\<And>ev. ev \<in> set (trace (snd (main e cfg args))) \<Longrightarrow>
                 ev \<in> {OpenInput, StatInput, HashPass, SeekStart, CloseInput}"
      by blast
    then have "\<And>s i bs ok. WriteDest s i bs ok \<notin> set (trace (snd (main e cfg args)))"
      "\<And>s buf. CodecSplit s buf \<notin> set (trace (snd (main e cfg args)))"
      by fastforce+
    then have "sound_upto e cfg ?enc 0 (snd (main e cfg args))"
      by (simp add: sound_upto_def)
    then show ?thesis ..
  next
    assume "\<exists>content S st0.
      1 \<le> dataShards cfg \<and> 0 \<le> parShards cfg \<and> dataShards cfg + parShards cfg \<le> 256 \<and>
      input e = Some content \<and> 0 < S \<and>
      main e cfg args = close_input (loop e cfg ?enc S st0) \<and>
      stripeno st0 = 0 \<and> rest st0 = content \<and> length (data st0) = nat S \<and>
      length (ofs st0) = nat (dataShards cfg) + nat (parShards cfg) \<and>
      files st0 = existing e \<and> trace st0 = [OpenInput, StatInput, HashPass, SeekStart]"
    then obtain S st0 where
      m: "main e cfg args = close_input (loop e cfg ?enc S st0)"
      and st0: "stripeno st0 = 0" "trace st0 = [OpenInput, StatInput, HashPass, SeekStart]"
      by blast
    from st0 have "sound_upto e cfg ?enc (stripeno st0) st0"
      by (simp add: sound_upto_def)
    from loop_sound [OF this, of S] obtain n where
      n: "sound_upto e cfg ?enc n (snd (loop e cfg ?enc S st0))" ..
    obtain out st where r: "loop e cfg ?enc S st0 = (out, st)"
      by (cases "loop e cfg ?enc S st0")
    have "snd (close_input (out, st)) = st \<or> snd (close_input (out, st)) = log CloseInput st"
      by (cases out) (simp_all add: close_input_def)
    then have "sound_upto e cfg ?enc n (snd (close_input (out, st)))"
    proof
      assume "snd (close_input (out, st)) = st"
      with n r show ?thesis by simp
    next
      assume c: "snd (close_input (out, st)) = log CloseInput st"
      from n r have "sound_upto e cfg ?enc n st" by simp
      from sound_upto_quiet_events [OF this, of "log CloseInput st" "[CloseInput]"] c
      show ?thesis by simp
    qed
    with m r show ?thesis by auto
  qed
qed

lemma writes_mem: "(s, bs, ok) \<in> set (writes i tr) \<longleftrightarrow> WriteDest s i bs ok \<in> set tr"
  by (induction i tr rule: writes.induct) auto

lemma main_returned:
  assumes "fst (main e cfg args) = Returned"
  shows "\<exists>tr. trace (snd (main e cfg args)) =
                tr @ map (\<lambda>i. CloseDest i (stripeno (snd (main e cfg args))))
                       [0..<nat (dataShards cfg + parShards cfg)] @ [CloseInput] \<and>
              (\<forall>i. closed i tr = []) \<and>
              (\<forall>i < nat (dataShards cfg + parShards cfg).
                 opened i tr = [0..<Suc (stripeno (snd (main e cfg args)))] \<and>
                 map fst (writes i tr) = [0..<Suc (stripeno (snd (main e cfg args)))] \<and>
                 files (snd (main e cfg args)) i =
                   Some ((case existing e i of None \<Rightarrow> [] | Some c \<Rightarrow> c) @ appended i tr))"
proof -
  let ?k = "nat (dataShards cfg)" and ?m = "nat (parShards cfg)"
  from main_cases [of e cfg args] assms obtain S st0 where
    v: "1 \<le> dataShards cfg" "0 \<le> parShards cfg"
    and m: "main e cfg args = close_input (loop e cfg (?k, ?m) S st0)"
    and st0: "stripeno st0 = 0" "length (ofs st0) = ?k + ?m" "files st0 = existing e"
      "trace st0 = [OpenInput, StatInput, HashPass, SeekStart]"
    by blast
  from v have km: "nat (dataShards cfg + parShards cfg) = ?k + ?m" by (simp add: nat_add_distrib)
  obtain out st where r: "loop e cfg (?k, ?m) S st0 = (out, st)"
    by (cases "loop e cfg (?k, ?m) S st0")
  from assms m r have out: "out = Returned"
    by (cases out) (simp_all add: close_input_def)
  with m r have ms: "snd (main e cfg args) = log CloseInput st"
    by (simp add: close_input_def)
  have "fst (loop e cfg (?k, ?m) S st0) = Returned" using r out by simp
  from loop_returned [OF this st0(2)] st0 obtain tr where
    T: "trace st = tr @ map (\<lambda>i. CloseDest i (stripeno st)) [0..<?k + ?m]"
       "\<forall>i. closed i tr = []"
       "\<forall>i < ?k + ?m. opened i tr = [0..<Suc (stripeno st)] \<and>
          map fst (writes i tr) = [0..<Suc (stripeno st)] \<and>
          files st i = Some ((case existing e i of None \<Rightarrow> [] | Some c \<Rightarrow> c) @ appended i tr)"
    unfolding r by auto
  show ?thesis
    unfolding ms km using T by (intro exI [of _ tr]) simp
qed

section \<open>Runs in which no call fails\<close>

lemma write_shards_good:
  assumes "stripeno st = s" "s < length (distribution st)" "distribution st ! s = perm"
    and "\<forall>i \<in> set is. i < length perm \<and> perm ! i < length shards \<and> i < length (ofs st) \<and>
           \<not> open_fail e s i"
  shows "\<exists>st'. write_shards e shards is st = Inr st'"
  using assms
proof (induction "is" arbitrary: st)
  case Nil
  then show ?case by simp
next
  case (Cons i "is")
  let ?st1 = "write_dest e i (shards ! (perm ! i)) (open_dest i (log (OpenDest s i) st))"
  have "\<exists>st'. write_shards e shards is ?st1 = Inr st'"
    using Cons.prems by (intro Cons.IH) simp_all
  with Cons.prems show ?case by (simp add: Let_def)
qed

lemma stripe_good:
  assumes "\<not> read_fault e s" "\<forall>i < k + m. \<not> open_fail e s i"
    and "0 < k" "length (data st) = k * per"
    and "wrap64 (dataShards cfg + parShards cfg) = int (k + m)"
    and "stripeno st = s" "s < length (distribution st)" "length (ofs st) = k + m"
  shows "\<exists>b st'. stripe e cfg (k, m) st = Inr (b, st')"
proof -
  obtain b st1 where r: "read_stripe e st = (b, st1)"
    by (cases "read_stripe e st")
  from read_stripe_length [OF r] assms(4) have len: "length (data st1) = k * per" by simp
  from read_stripe_keeps [OF r] have k1: "stripeno st1 = s" "distribution st1 = distribution st"
    "ofs st1 = ofs st"
    by (simp_all add: assms(6))
  from encode_ok [OF assms(3) len, of e m] obtain sh where
    c: "encode e (k, m) st1 = Inr (sh, log (CodecSplit (stripeno st1) (data st1)) st1)"
       "length sh = k + m"
    by blast
  let ?st2 = "log (CodecSplit (stripeno st1) (data st1)) st1"
  from genRandomArr_perm [of "int (k + m)" "draw e s"] obtain p where
    p: "genRandomArr (draw e s) (int (k + m)) = Inr p" "length p = k + m" "set p = {0..<k + m}"
    by auto
  let ?st3 = "?st2\<lparr>distribution := (distribution ?st2)[s := p]\<rparr>"
  have pr: "\<forall>i < k + m. p ! i < k + m"
    using p(2,3) by (metis atLeastLessThan_iff nth_mem)
  have "\<exists>st'. write_shards e sh [0..<length sh] ?st3 = Inr st'"
  proof (rule write_shards_good [where s = s and perm = p])
    show "stripeno ?st3 = s" by (simp add: k1)
    show "s < length (distribution ?st3)" using assms(7) by (simp add: k1)
    show "distribution ?st3 ! s = p" using assms(7) by (simp add: k1)
    show "\<forall>i \<in> set [0..<length sh]. i < length p \<and> p ! i < length sh \<and> i < length (ofs ?st3) \<and>
           \<not> open_fail e s i"
      using assms(2,8) pr by (simp add: c(2) p(2) k1)
  qed
  then obtain st' where w: "write_shards e sh [0..<length sh] ?st3 = Inr st'" ..
  have "place e cfg sh ?st2 = Inr st'"
    using w p(1) assms(5,7) by (simp add: place_def k1)
  with assms(1) r c(1) show ?thesis by (simp add: stripe_def assms(6))
qed

lemma shards_of_lengths:
  assumes "0 < k" "length buf = k * per"
  shows "length (shards_of e (k, m) buf) = k + m \<and>
         (\<forall>x \<in> set (shards_of e (k, m) buf). length x = per)"
proof -
  from codec_ok [OF assms, of m "parity e"] obtain sh0 sh where
    "Split (k, m) buf = Inr sh0" "Encode (parity e) (k, m) sh0 = Inr sh"
    "length sh = k + m" "\<forall>x \<in> set sh. length x = per"
    by blast
  then show ?thesis by (simp add: shards_of_def)
qed

lemma at_stripe_data_length:
  assumes "at_stripe e k m per N content s st"
  shows "length (data st) = k * per"
proof (cases "s = 0")
  case True
  with assms show ?thesis by (simp add: at_stripe_def)
next
  case False
  from assms have "s * (k * per) \<le> length content"
    and d: "data st = (if s = 0 then replicate (k * per) 0
                else take (k * per) (drop ((s - 1) * (k * per)) content))"
    by (simp_all add: at_stripe_def)
  moreover from False have "s * (k * per) = (s - 1) * (k * per) + k * per"
    by (metis Suc_diff_1 add.commute mult_Suc not_gr_zero)
  ultimately have "k * per \<le> length content - (s - 1) * (k * per)" by linarith
  with d False show ?thesis by simp
qed

lemma stripe_at_stripe:
  assumes inv: "at_stripe e k m per N content s st"
    and step: "stripe e cfg (k, m) st = Inr (b, st')"
    and k: "0 < k"
  shows "b = min (chunk e s) (min (k * per) (length content - s * (k * per))) \<and>
         stripeno st' = s \<and> s < N \<and>
         data st' = take b (drop (s * (k * per)) content) @ drop b (data st) \<and>
         rest st' = drop (s * (k * per) + b) content \<and>
         length (distribution st') = N \<and> length (ofs st') = k + m \<and>
         (\<forall>i < length (ofs st'). ofs st' ! i = Some s) \<and>
         (\<exists>evs. trace st' = trace st @ [ReadInput s b, CodecSplit s (data st')] @ evs \<and>
            (\<forall>i. closed i evs = [])) \<and>
         (\<forall>i. \<not> i < k + m \<longrightarrow> files st' i = existing e i) \<and>
         (\<forall>i < k + m.
            map fst (writes i (trace st')) = [0..<Suc s] \<and>
            (\<forall>w \<in> set (writes i (trace st')).
               length (fst (snd w)) = per \<and> snd (snd w) = (\<not> write_fail e (fst w) i)) \<and>
            (case files st' i of None \<Rightarrow> [] | Some c \<Rightarrow> c) =
              (case existing e i of None \<Rightarrow> [] | Some c \<Rightarrow> c) @ appended i (trace st') \<and>
            files st' i \<noteq> None)"
proof -
  let ?S = "k * per"
  from inv have I: "stripeno st = s" "s * ?S \<le> length content"
    "rest st = drop (s * ?S) content" "length (distribution st) = N" "length (ofs st) = k + m"
    "\<forall>i. \<not> i < k + m \<longrightarrow> files st i = existing e i"
    by (simp_all add: at_stripe_def)
  from inv have Iw: "\<And>i. i < k + m \<Longrightarrow>
        map fst (writes i (trace st)) = [0..<s] \<and>
        (\<forall>w \<in> set (writes i (trace st)).
           length (fst (snd w)) = per \<and> snd (snd w) = (\<not> write_fail e (fst w) i)) \<and>
        (case files st i of None \<Rightarrow> [] | Some c \<Rightarrow> c) =
          (case existing e i of None \<Rightarrow> [] | Some c \<Rightarrow> c) @ appended i (trace st)"
    by (simp add: at_stripe_def)
  note dl = at_stripe_data_length [OF inv]
  let ?sh = "shards_of e (k, m) (data st')"
  from stripe_Inr [OF step I(1)] obtain perm where
    S: "b = min (chunk e s) (min (length (data st)) (length (rest st)))"
       "data st' = take b (rest st) @ drop b (data st)"
       "rest st' = drop b (rest st)"
       "stripeno st' = s" "s < length (distribution st)"
       "distribution st' = (distribution st)[s := perm]"
       "length (ofs st') = length (ofs st)"
       "trace st' = trace st @ [ReadInput s b, CodecSplit s (data st')] @
           write_events e s perm ?sh [0..<k + m]"
       "\<forall>i. files st' i =
            (if i < k + m
             then Some ((case files st i of None \<Rightarrow> [] | Some c \<Rightarrow> c) @
                    (if write_fail e s i then [] else ?sh ! (perm ! i)))
             else files st i)"
       "\<forall>i < k + m. i < length (ofs st) \<and> ofs st' ! i = Some s \<and>
            \<not> open_fail e s i \<and> i < length perm \<and> perm ! i < k + m"
    by blast
  have dl': "length (data st') = ?S"
    using S(1,2) dl by (simp add: I(3))
  from shards_of_lengths [OF k dl', of e m] have
    sh: "length ?sh = k + m" "\<forall>x \<in> set ?sh. length x = per" by simp_all
  have b: "b = min (chunk e s) (min ?S (length content - s * ?S))"
    using S(1) dl by (simp add: I(3))
  have per_i: "\<forall>i < k + m.
            map fst (writes i (trace st')) = [0..<Suc s] \<and>
            (\<forall>w \<in> set (writes i (trace st')).
               length (fst (snd w)) = per \<and> snd (snd w) = (\<not> write_fail e (fst w) i)) \<and>
            (case files st' i of None \<Rightarrow> [] | Some c \<Rightarrow> c) =
              (case existing e i of None \<Rightarrow> [] | Some c \<Rightarrow> c) @ appended i (trace st') \<and>
            files st' i \<noteq> None"
  proof (intro allI impI)
    fix i assume i: "i < k + m"
    from S(10) i have pi: "perm ! i < k + m" by simp
    with sh have lp: "length (?sh ! (perm ! i)) = per" by simp
    have w: "writes i (write_events e s perm ?sh [0..<k + m]) =
               [(s, ?sh ! (perm ! i), \<not> write_fail e s i)]"
      using i by (simp add: writes_write_events)
    have a: "appended i (write_events e s perm ?sh [0..<k + m]) =
               (if write_fail e s i then [] else ?sh ! (perm ! i))"
      by (simp add: appended_def w)
    from S(9) i have f: "files st' i = Some ((case files st i of None \<Rightarrow> [] | Some c \<Rightarrow> c) @
                    (if write_fail e s i then [] else ?sh ! (perm ! i)))"
      by simp
    from Iw [OF i] have old: "map fst (writes i (trace st)) = [0..<s]"
      "\<forall>w \<in> set (writes i (trace st)).
           length (fst (snd w)) = per \<and> snd (snd w) = (\<not> write_fail e (fst w) i)"
      "(case files st i of None \<Rightarrow> [] | Some c \<Rightarrow> c) =
          (case existing e i of None \<Rightarrow> [] | Some c \<Rightarrow> c) @ appended i (trace st)"
      by simp_all
    show "map fst (writes i (trace st')) = [0..<Suc s] \<and>
            (\<forall>w \<in> set (writes i (trace st')).
               length (fst (snd w)) = per \<and> snd (snd w) = (\<not> write_fail e (fst w) i)) \<and>
            (case files st' i of None \<Rightarrow> [] | Some c \<Rightarrow> c) =
              (case existing e i of None \<Rightarrow> [] | Some c \<Rightarrow> c) @ appended i (trace st') \<and>
            files st' i \<noteq> None"
      unfolding S(8) f old(3) using old(1,2) lp by (simp add: w a)
  qed
  have "\<forall>i. closed i (write_events e s perm ?sh [0..<k + m]) = []" by simp
  with S(8) have ev: "\<exists>evs. trace st' = trace st @ [ReadInput s b, CodecSplit s (data st')] @ evs \<and>
            (\<forall>i. closed i evs = [])"
    by blast
  have o: "\<forall>i < length (ofs st'). ofs st' ! i = Some s"
    using S(7,10) I(5) by simp
  have f2: "\<forall>i. \<not> i < k + m \<longrightarrow> files st' i = existing e i"
    using S(9) I(6) by simp
  have r: "rest st' = drop (s * ?S + b) content"
    using S(3) by (simp add: I(3) add.commute)
  have d: "data st' = take b (drop (s * ?S) content) @ drop b (data st)"
    using S(2) by (simp add: I(3))
  from b S(4) S(5) d r S(6) S(7) o ev f2 per_i I(4,5) show ?thesis by simp
qed

lemma full_stripe_step:
  assumes inv: "at_stripe e k m per N content s st"
    and env: "\<not> read_fault e s" "\<forall>i < k + m. \<not> open_fail e s i" "k * per \<le> chunk e s"
    and more: "Suc s * (k * per) \<le> length content" "s < N"
    and k: "0 < k" and w: "wrap64 (dataShards cfg + parShards cfg) = int (k + m)"
  shows "\<exists>st'. loop e cfg (k, m) (int (k * per)) st = loop e cfg (k, m) (int (k * per)) st' \<and>
           at_stripe e k m per N content (Suc s) st'"
proof -
  let ?S = "k * per"
  from inv have I: "stripeno st = s" "length (distribution st) = N" "length (ofs st) = k + m"
    by (simp_all add: at_stripe_def)
  note dl = at_stripe_data_length [OF inv]
  from stripe_good [OF env(1,2) k dl w I(1) _ I(3)] more(2) I(2) obtain b st1 where
    step: "stripe e cfg (k, m) st = Inr (b, st1)" by auto
  note A = stripe_at_stripe [OF inv step k]
  from more(1) have "?S \<le> length content - s * ?S" by simp
  with A env(3) have b: "b = ?S" by simp
  let ?st2 = "st1\<lparr>stripeno := stripeno st1 + 1\<rparr>"
  have l: "loop e cfg (k, m) (int ?S) st = loop e cfg (k, m) (int ?S) ?st2"
    using step b by (subst loop.simps) simp
  have d: "data st1 = take ?S (drop (s * ?S) content)"
    using A dl by (simp add: b)
  have r: "rest st1 = drop (Suc s * ?S) content"
    using A by (simp add: b add.commute)
  have "at_stripe e k m per N content (Suc s) ?st2"
    unfolding at_stripe_def using A d r more(1) by simp
  with l show ?thesis by blast
qed

lemma full_stripes:
  assumes inv: "at_stripe e k m per N content s st"
    and env: "\<forall>s. \<not> read_fault e s" "\<forall>s i. \<not> open_fail e s i" "\<forall>s. k * per \<le> chunk e s"
    and more: "(s + j) * (k * per) \<le> length content" "s + j \<le> N"
    and k: "0 < k" and w: "wrap64 (dataShards cfg + parShards cfg) = int (k + m)"
  shows "\<exists>st'. loop e cfg (k, m) (int (k * per)) st = loop e cfg (k, m) (int (k * per)) st' \<and>
           at_stripe e k m per N content (s + j) st'"
  using inv more
proof (induction j arbitrary: s st)
  case 0
  then show ?case by auto
next
  case (Suc j)
  have "Suc s * (k * per) \<le> (s + Suc j) * (k * per)" by (intro mult_le_mono1) simp
  with Suc.prems(2) have a: "Suc s * (k * per) \<le> length content" by linarith
  from Suc.prems(3) have b: "s < N" by simp
  from full_stripe_step [OF Suc.prems(1) _ _ _ a b k w] env obtain st1 where
    s1: "loop e cfg (k, m) (int (k * per)) st = loop e cfg (k, m) (int (k * per)) st1"
        "at_stripe e k m per N content (Suc s) st1"
    by auto
  from Suc.IH [OF s1(2)] Suc.prems(2,3) obtain st' where
    "loop e cfg (k, m) (int (k * per)) st1 = loop e cfg (k, m) (int (k * per)) st'"
    "at_stripe e k m per N content (Suc s + j) st'"
    by auto
  with s1(1) show ?case by (intro exI [of _ st']) simp
qed

lemma exact_end:
  assumes inv: "at_stripe e k m per N content N st"
    and len: "length content = N * (k * per)"
    and env: "\<not> read_fault e N"
    and k: "0 < k" and w: "wrap64 (dataShards cfg + parShards cfg) = int (k + m)"
  shows "\<exists>st'. loop e cfg (k, m) (int (k * per)) st = (Panicked (IndexOutOfRange N N), st') \<and>
           stripeno st' = N \<and> trace st' = trace st @ [ReadInput N 0, CodecSplit N (data st)] \<and>
           files st' = files st"
proof -
  from inv have I: "stripeno st = N" "length (distribution st) = N" "rest st = drop (N * (k * per)) content"
    by (simp_all add: at_stripe_def)
  note dl = at_stripe_data_length [OF inv]
  have r: "rest st = []" using I(3) len by simp
  have rs: "read_stripe e st = (0, log (ReadInput N 0) st)"
    by (simp add: read_stripe_def r I(1))
  from stripe_ledger_full [of e st k per cfg m] env k dl w I
  have "stripe e cfg (k, m) st =
          Inl (Panicked (IndexOutOfRange N N), log (CodecSplit N (data st)) (log (ReadInput N 0) st))"
    by (simp add: rs)
  then show ?thesis
    by (subst loop.simps) (simp add: I(1))
qed

lemma short_end:
  assumes inv: "at_stripe e k m per (Suc n) content n st"
    and len: "length content = n * (k * per) + r" "r < k * per"
    and env: "\<not> read_fault e n" "\<forall>i < k + m. \<not> open_fail e n i" "k * per \<le> chunk e n"
    and k: "0 < k" and w: "wrap64 (dataShards cfg + parShards cfg) = int (k + m)"
  shows "\<exists>st1. loop e cfg (k, m) (int (k * per)) st = (Returned, close_all st1) \<and>
           stripeno st1 = n \<and>
           data st1 = drop (n * (k * per)) content @ drop r (data st) \<and>
           length (ofs st1) = k + m \<and>
           (\<forall>i < length (ofs st1). ofs st1 ! i = Some n) \<and>
           (\<exists>evs. trace st1 = trace st @ [ReadInput n r, CodecSplit n (data st1)] @ evs \<and>
              (\<forall>i. closed i evs = [])) \<and>
           (\<forall>i. \<not> i < k + m \<longrightarrow> files st1 i = existing e i) \<and>
           (\<forall>i < k + m.
              map fst (writes i (trace st1)) = [0..<Suc n] \<and>
              (\<forall>w \<in> set (writes i (trace st1)).
                 length (fst (snd w)) = per \<and> snd (snd w) = (\<not> write_fail e (fst w) i)) \<and>
              (case files st1 i of None \<Rightarrow> [] | Some c \<Rightarrow> c) =
                (case existing e i of None \<Rightarrow> [] | Some c \<Rightarrow> c) @ appended i (trace st1) \<and>
              files st1 i \<noteq> None)"
proof -
  let ?S = "k * per"
  from inv have I: "stripeno st = n" "length (distribution st) = Suc n" "length (ofs st) = k + m"
    by (simp_all add: at_stripe_def)
  note dl = at_stripe_data_length [OF inv]
  from stripe_good [OF env(1,2) k dl w I(1) _ I(3)] I(2) obtain b st1 where
    step: "stripe e cfg (k, m) st = Inr (b, st1)" by auto
  note A = stripe_at_stripe [OF inv step k]
  from len have "length content - n * ?S = r" by simp
  with A env(3) len(2) have b: "b = r" by simp
  have "int r < int k * int per"
    using len(2) by (metis of_nat_less_iff of_nat_mult)
  then have l: "loop e cfg (k, m) (int ?S) st = (Returned, close_all st1)"
    using step b by (subst loop.simps) simp
  have d: "data st1 = drop (n * ?S) content @ drop r (data st)"
    using A len(1) by (simp add: b)
  from A obtain evs where
    E: "trace st1 = trace st @ [ReadInput n b, CodecSplit n (data st1)] @ evs"
       "\<forall>i. closed i evs = []"
    by blast
  have t: "\<exists>evs. trace st1 = trace st @ [ReadInput n r, CodecSplit n (data st1)] @ evs \<and>
              (\<forall>i. closed i evs = [])"
    using E unfolding b by blast
  from A have rest: "stripeno st1 = n" "length (ofs st1) = k + m"
    "\<forall>i < length (ofs st1). ofs st1 ! i = Some n"
    "\<forall>i. \<not> i < k + m \<longrightarrow> files st1 i = existing e i"
    "\<forall>i < k + m.
              map fst (writes i (trace st1)) = [0..<Suc n] \<and>
              (\<forall>w \<in> set (writes i (trace st1)).
                 length (fst (snd w)) = per \<and> snd (snd w) = (\<not> write_fail e (fst w) i)) \<and>
              (case files st1 i of None \<Rightarrow> [] | Some c \<Rightarrow> c) =
                (case existing e i of None \<Rightarrow> [] | Some c \<Rightarrow> c) @ appended i (trace st1) \<and>
              files st1 i \<noteq> None"
    by blast+
  from l rest(1) d rest(2,3) t rest(4,5) show ?thesis
    by (intro exI [of _ st1] conjI)
qed

lemma stripeNum_exact:
  assumes "0 < S"
  shows "nat ((int (n * S) + int S - 1) div int S) = n"
proof -
  have "int (n * S) + int S - 1 = int (n * S + (S - 1))" using assms by (simp add: of_nat_diff)
  moreover have "(n * S + (S - 1)) div S = n + (S - 1) div S"
    using assms by (intro div_mult_self3) simp
  moreover have "(S - 1) div S = 0" using assms by (intro div_less) simp
  ultimately show ?thesis by (metis add.right_neutral nat_int zdiv_int)
qed

lemma stripeNum_short:
  assumes "0 < r" "r < S"
  shows "nat ((int (n * S + r) + int S - 1) div int S) = Suc n"
proof -
  have "int (n * S + r) + int S - 1 = int (Suc n * S + (r - 1))" using assms by (simp add: of_nat_diff)
  moreover have "(Suc n * S + (r - 1)) div S = Suc n + (r - 1) div S"
    using assms by (intro div_mult_self3) simp
  moreover have "(r - 1) div S = 0" using assms by (intro div_less) simp
  ultimately show ?thesis by (metis add.right_neutral nat_int zdiv_int)
qed

lemma main_at_stripe:
  assumes "length args = 1"
    and "1 \<le> dataShards cfg" "0 \<le> parShards cfg" "dataShards cfg + parShards cfg \<le> 256"
    and "1 \<le> blockSize cfg"
    and "dataShards cfg * blockSize cfg + int (length content) < 2 ^ 63"
    and "input e = Some content" "\<not> stat_fault e" "\<not> hash_fault e"
    and "k = nat (dataShards cfg)" "m = nat (parShards cfg)" "per = nat (blockSize cfg)"
  shows "\<exists>st0. main e cfg args = close_input (loop e cfg (k, m) (int (k * per)) st0) \<and>
           at_stripe e k m per (nat ((int (length content) + int (k * per) - 1) div int (k * per)))
             content 0 st0 \<and>
           trace st0 = [OpenInput, StatInput, HashPass, SeekStart] \<and>
           0 < k \<and> 0 < per \<and> wrap64 (dataShards cfg + parShards cfg) = int (k + m)"
proof -
  let ?K = "dataShards cfg" and ?M = "parShards cfg" and ?B = "blockSize cfg"
  have S: "int (k * per) = ?K * ?B" using assms(2,5,10,12) by simp
  have km: "nat (?K + ?M) = k + m" using assms(2,3,10,11) by (simp add: nat_add_distrib)
  have kn: "nat (?K * ?B) = k * per" using assms(2,5,10,12) by (simp add: nat_mult_distrib)
  have w: "wrap64 (?K + ?M) = int (k + m)"
    using assms(2,3,4,10,11) by (simp add: wrap64_id is_int64_def)
  let ?N = "nat ((int (length content) + int (k * per) - 1) div int (k * per))"
  let ?st0 = "\<lparr>data = replicate (k * per) 0, rest = content, stripeno = 0,
      distribution = replicate ?N [], ofs = replicate (k + m) None,
      files = existing e, trace = [OpenInput, StatInput, HashPass, SeekStart]\<rparr>"
  from main_loop [OF assms(1-9)] have
    "main e cfg args = close_input (loop e cfg (k, m) (int (k * per)) ?st0)"
    using S kn km by (simp add: assms(10,11) [symmetric])
  moreover have "at_stripe e k m per ?N content 0 ?st0"
    by (simp add: at_stripe_def)
  moreover have "0 < k" "0 < per" using assms(2,5,10,12) by simp_all
  ultimately show ?thesis using w by (intro exI [of _ ?st0]) simp
qed

lemma concat_ok_length:
  "\<forall>w \<in> set ws. length (fst (snd w)) = per \<and> snd (snd w) \<Longrightarrow>
     length (concat (map (\<lambda>(s, bs, ok). bs) (filter (\<lambda>(s, bs, ok). ok) ws))) = per * length ws"
  by (induction ws) auto

lemma appended_length:
  assumes "\<forall>w \<in> set (writes i tr). length (fst (snd w)) = per \<and> snd (snd w)"
  shows "length (appended i tr) = per * length (writes i tr)"
  using concat_ok_length [OF assms] by (simp add: appended_def)

lemma exact_run:
  assumes cfg: "length args = 1" "1 \<le> dataShards cfg" "0 \<le> parShards cfg"
      "dataShards cfg + parShards cfg \<le> 256" "1 \<le> blockSize cfg"
      "dataShards cfg * blockSize cfg + int (length content) < 2 ^ 63"
      "input e = Some content" "\<not> stat_fault e" "\<not> hash_fault e"
      "k = nat (dataShards cfg)" "m = nat (parShards cfg)" "per = nat (blockSize cfg)"
    and env: "\<forall>s. \<not> read_fault e s" "\<forall>s i. \<not> open_fail e s i" "\<forall>s. k * per \<le> chunk e s"
    and len: "length content = n * (k * per)"
  shows "fst (main e cfg args) = Panicked (IndexOutOfRange n n) \<and>
         stripeno (snd (main e cfg args)) = n \<and>
         (\<forall>i < k + m.
            map fst (writes i (trace (snd (main e cfg args)))) = [0..<n] \<and>
            (\<forall>w \<in> set (writes i (trace (snd (main e cfg args)))). length (fst (snd w)) = per))"
proof -
  let ?S = "k * per"
  from main_at_stripe [OF cfg] obtain st0 where
    m: "main e cfg args = close_input (loop e cfg (k, m) (int ?S) st0)"
    and a0: "at_stripe e k m per (nat ((int (length content) + int ?S - 1) div int ?S)) content 0 st0"
    and k: "0 < k" "0 < per" and w: "wrap64 (dataShards cfg + parShards cfg) = int (k + m)"
    by blast
  from k have S: "0 < ?S" by simp
  from stripeNum_exact [OF S, of n] len a0 have a0': "at_stripe e k m per n content 0 st0" by simp
  from full_stripes [OF a0' env _ _ k(1) w, of n] len obtain st1 where
    l1: "loop e cfg (k, m) (int ?S) st0 = loop e cfg (k, m) (int ?S) st1"
    and a1: "at_stripe e k m per n content n st1"
    by auto
  from exact_end [OF a1 len _ k(1) w] env(1) obtain st2 where
    l2: "loop e cfg (k, m) (int ?S) st1 = (Panicked (IndexOutOfRange n n), st2)"
    and s2: "stripeno st2 = n" "trace st2 = trace st1 @ [ReadInput n 0, CodecSplit n (data st1)]"
    by blast
  from m l1 l2 have r: "main e cfg args = (Panicked (IndexOutOfRange n n), log CloseInput st2)"
    by (simp add: close_input_def)
  from a1 have "\<forall>i < k + m.
        map fst (writes i (trace st1)) = [0..<n] \<and>
        (\<forall>w \<in> set (writes i (trace st1)). length (fst (snd w)) = per)"
    by (simp add: at_stripe_def)
  then show ?thesis unfolding r by (simp add: s2)
qed

lemma short_run:
  assumes cfg: "length args = 1" "1 \<le> dataShards cfg" "0 \<le> parShards cfg"
      "dataShards cfg + parShards cfg \<le> 256" "1 \<le> blockSize cfg"
      "dataShards cfg * blockSize cfg + int (length content) < 2 ^ 63"
      "input e = Some content" "\<not> stat_fault e" "\<not> hash_fault e"
      "k = nat (dataShards cfg)" "m = nat (parShards cfg)" "per = nat (blockSize cfg)"
    and env: "\<forall>s. \<not> read_fault e s" "\<forall>s i. \<not> open_fail e s i" "\<forall>s. k * per \<le> chunk e s"
    and len: "length content = n * (k * per) + r" "0 < r" "r < k * per"
  shows "fst (main e cfg args) = Returned \<and>
         stripeno (snd (main e cfg args)) = n \<and>
         ReadInput n r \<in> set (trace (snd (main e cfg args))) \<and>
         CodecSplit n (drop (n * (k * per)) content @
             drop r (if n = 0 then replicate (k * per) 0
                     else take (k * per) (drop ((n - 1) * (k * per)) content)))
           \<in> set (trace (snd (main e cfg args))) \<and>
         (\<forall>i. \<not> i < k + m \<longrightarrow> files (snd (main e cfg args)) i = existing e i) \<and>
         (\<forall>i < k + m.
            map fst (writes i (trace (snd (main e cfg args)))) = [0..<Suc n] \<and>
            (\<forall>w \<in> set (writes i (trace (snd (main e cfg args)))).
               length (fst (snd w)) = per \<and> snd (snd w) = (\<not> write_fail e (fst w) i)) \<and>
            files (snd (main e cfg args)) i =
              Some ((case existing e i of None \<Rightarrow> [] | Some c \<Rightarrow> c)
                    @ appended i (trace (snd (main e cfg args)))))"
proof -
  let ?S = "k * per"
  from main_at_stripe [OF cfg] obtain st0 where
    m: "main e cfg args = close_input (loop e cfg (k, m) (int ?S) st0)"
    and a0: "at_stripe e k m per (nat ((int (length content) + int ?S - 1) div int ?S)) content 0 st0"
    and k: "0 < k" "0 < per" and w: "wrap64 (dataShards cfg + parShards cfg) = int (k + m)"
    by blast
  from stripeNum_short [OF len(2,3), of n] len(1) a0
  have a0': "at_stripe e k m per (Suc n) content 0 st0" by simp
  from full_stripes [OF a0' env _ _ k(1) w, of n] len(1) obtain st1 where
    l1: "loop e cfg (k, m) (int ?S) st0 = loop e cfg (k, m) (int ?S) st1"
    and a1: "at_stripe e k m per (Suc n) content n st1"
    by auto
  from a1 have d1: "data st1 = (if n = 0 then replicate ?S 0
                else take ?S (drop ((n - 1) * ?S) content))"
    by (simp add: at_stripe_def)
  from short_end [OF a1 len(1,3) _ _ _ k(1) w] env obtain st2 evs where
    l2: "loop e cfg (k, m) (int ?S) st1 = (Returned, close_all st2)"
    and s2: "stripeno st2 = n" "data st2 = drop (n * ?S) content @ drop r (data st1)"
      "length (ofs st2) = k + m" "\<forall>i < length (ofs st2). ofs st2 ! i = Some n"
      "trace st2 = trace st1 @ [ReadInput n r, CodecSplit n (data st2)] @ evs"
      "\<forall>i. \<not> i < k + m \<longrightarrow> files st2 i = existing e i"
    and w2: "\<forall>i < k + m.
              map fst (writes i (trace st2)) = [0..<Suc n] \<and>
              (\<forall>w \<in> set (writes i (trace st2)).
                 length (fst (snd w)) = per \<and> snd (snd w) = (\<not> write_fail e (fst w) i)) \<and>
              (case files st2 i of None \<Rightarrow> [] | Some c \<Rightarrow> c) =
                (case existing e i of None \<Rightarrow> [] | Some c \<Rightarrow> c) @ appended i (trace st2) \<and>
              files st2 i \<noteq> None"
    by blast
  from close_all_open [OF s2(4)] s2(3) have
    c: "close_all st2 = st2\<lparr>trace := trace st2 @ map (\<lambda>i. CloseDest i n) [0..<k + m]\<rparr>"
    by simp
  let ?st3 = "log CloseInput (close_all st2)"
  from m l1 l2 have r: "main e cfg args = (Returned, ?st3)"
    by (simp add: close_input_def)
  have t3: "trace ?st3 = trace st2 @ map (\<lambda>i. CloseDest i n) [0..<k + m] @ [CloseInput]"
    "files ?st3 = files st2" "stripeno ?st3 = n"
    by (simp_all add: c s2(1))
  have p3: "\<And>i. writes i (trace ?st3) = writes i (trace st2)"
    "\<And>i. appended i (trace ?st3) = appended i (trace st2)"
    unfolding t3 by (simp_all add: appended_def)
  have "\<forall>i < k + m.
            map fst (writes i (trace ?st3)) = [0..<Suc n] \<and>
            (\<forall>w \<in> set (writes i (trace ?st3)).
               length (fst (snd w)) = per \<and> snd (snd w) = (\<not> write_fail e (fst w) i)) \<and>
            files ?st3 i =
              Some ((case existing e i of None \<Rightarrow> [] | Some c \<Rightarrow> c) @ appended i (trace ?st3))"
    unfolding p3 t3(2) using w2 by fastforce
  moreover have "ReadInput n r \<in> set (trace ?st3)" unfolding t3 s2(5) by simp
  moreover have "CodecSplit n (drop (n * ?S) content @
             drop r (if n = 0 then replicate ?S 0
                     else take ?S (drop ((n - 1) * ?S) content))) \<in> set (trace ?st3)"
    unfolding t3 s2(5) s2(2) d1 by simp
  moreover have "\<forall>i. \<not> i < k + m \<longrightarrow> files ?st3 i = existing e i"
    unfolding t3(2) by (rule s2(6))
  ultimately show ?thesis unfolding r using t3(3) by simp
qed

section \<open>Configuration validation\<close>

text \<open>
  C6. Every configuration with \<open>dataShards + parShards > 256\<close> is rejected with a non-zero
  exit status before any file is opened, read or written: the trace of external calls
  is empty and the destination files are untouched. When the 64-bit sum itself exceeds
  256 (every sum below \<open>2^63\<close>, such as 257), the check of line 85 ends the run with
  status 1; a sum that wraps around is refused by the codec constructor with status 2.
\<close>

theorem oversized_rejected:
  "(256 < dataShards cfg + parShards cfg \<longrightarrow>
      (fst (main e cfg args) = Exit 1 \<or> fst (main e cfg args) = Exit 2) \<and>
      trace (snd (main e cfg args)) = [] \<and>
      files (snd (main e cfg args)) = existing e) \<and>
   (256 < wrap64 (dataShards cfg + parShards cfg) \<longrightarrow> fst (main e cfg args) = Exit 1)"
  by (auto simp: main_def New_def Let_def)

theorem oversized_rejected_witness:
  "(256::int) < dataShards \<lparr>dataShards = 200, parShards = 57, blockSize = 1024\<rparr>
                + parShards \<lparr>dataShards = 200, parShards = 57, blockSize = 1024\<rparr> \<and>
   256 < wrap64 (200 + 57) \<and>
   fst (main (quiet [1, 2, 3] 4096) \<lparr>dataShards = 200, parShards = 57, blockSize = 1024\<rparr> [''f''])
     = Exit 1 \<and>
   trace (snd (main (quiet [1, 2, 3] 4096) \<lparr>dataShards = 200, parShards = 57, blockSize = 1024\<rparr>
            [''f''])) = []"
proof -
  have "256 < wrap64 (200 + 57)" by (simp add: wrap64_def)
  with oversized_rejected [of "\<lparr>dataShards = 200, parShards = 57, blockSize = 1024\<rparr>"
      "quiet [1, 2, 3] 4096" "[''f'']"]
  show ?thesis by simp
qed

section \<open>The empty input\<close>

text \<open>
  C9. For an input file of length 0 and any valid configuration the run does not
  terminate normally: it panics. Unless a fault of the file system panics earlier, the
  loop runs one iteration (a read of 0 bytes, the codec on the zero buffer) and the
  ledger write \<open>distribution[0]\<close> indexes a ledger of length 0.
\<close>

theorem empty_input_panics:
  assumes "length args = 1" "input e = Some []"
    and "1 \<le> dataShards cfg" "0 \<le> parShards cfg" "dataShards cfg + parShards cfg \<le> 256"
    and "1 \<le> blockSize cfg" "dataShards cfg * blockSize cfg < 2 ^ 63"
  shows "(\<exists>p. fst (main e cfg args) = Panicked p) \<and>
         (\<not> stat_fault e \<and> \<not> hash_fault e \<and> \<not> read_fault e 0 \<longrightarrow>
            fst (main e cfg args) = Panicked (IndexOutOfRange 0 0) \<and>
            distribution (snd (main e cfg args)) = [] \<and>
            trace (snd (main e cfg args)) =
              [OpenInput, StatInput, HashPass, SeekStart, ReadInput 0 0,
               CodecSplit 0 (replicate (nat (dataShards cfg * blockSize cfg)) 0), CloseInput])"
proof -
  let ?k = "dataShards cfg" and ?m = "parShards cfg" and ?bs = "blockSize cfg"
  let ?S = "?k * ?bs"
  let ?st = "\<lparr>data = replicate (nat ?S) 0, rest = [], stripeno = 0, distribution = [],
              ofs = replicate (nat (?k + ?m)) None, files = existing e,
              trace = [OpenInput, StatInput, HashPass, SeekStart]\<rparr>"
  have S: "1 \<le> ?S" using mult_mono [of 1 ?k 1 ?bs] assms(3,6) by simp
  then have d: "(?S - 1) div ?S = 0" by simp
  have w: "wrap64 (?k + ?m) = int (nat ?k + nat ?m)"
    using assms(3,4,5) by (simp add: wrap64_id is_int64_def)
  have len: "length (data ?st) = nat ?k * nat ?bs"
    using assms(3,6) by (simp add: nat_mult_distrib)
  have k: "0 < nat ?k" using assms(3) by simp
  have ml: "\<not> stat_fault e \<Longrightarrow> \<not> hash_fault e \<Longrightarrow>
            main e cfg args = close_input (loop e cfg (nat ?k, nat ?m) ?S ?st)"
    using main_loop [of args cfg "[]" e] assms d by simp
  have full: "\<not> read_fault e 0 \<Longrightarrow> loop e cfg (nat ?k, nat ?m) ?S ?st =
          (Panicked (IndexOutOfRange 0 0),
           log (CodecSplit 0 (data (snd (read_stripe e ?st)))) (snd (read_stripe e ?st)))"
    using stripe_ledger_full [of e ?st "nat ?k" "nat ?bs" cfg "nat ?m", OF _ k len w]
    by (simp add: loop.simps [of e cfg "(nat ?k, nat ?m)" ?S ?st])
  have fault: "read_fault e 0 \<Longrightarrow> loop e cfg (nat ?k, nat ?m) ?S ?st = (Panicked ReadError, ?st)"
    by (simp add: loop.simps [of e cfg "(nat ?k, nat ?m)" ?S ?st] stripe_def)
  have exact: "\<not> stat_fault e \<and> \<not> hash_fault e \<and> \<not> read_fault e 0 \<longrightarrow>
            fst (main e cfg args) = Panicked (IndexOutOfRange 0 0) \<and>
            distribution (snd (main e cfg args)) = [] \<and>
            trace (snd (main e cfg args)) =
              [OpenInput, StatInput, HashPass, SeekStart, ReadInput 0 0,
               CodecSplit 0 (replicate (nat ?S) 0), CloseInput]"
    using ml full by (simp add: close_input_def read_stripe_def)
  have "\<exists>p. fst (main e cfg args) = Panicked p"
  proof (cases "stat_fault e \<or> hash_fault e")
    case True
    have "wrap64 (?k + ?m) \<le> 256" using assms(3,4,5) by (simp add: wrap64_id is_int64_def)
    with True assms(1,2,3,4,5) show ?thesis
      by (auto simp: main_def New_def Let_def close_input_def)
  next
    case False
    then show ?thesis
      using ml full fault by (cases "read_fault e 0") (simp_all add: close_input_def)
  qed
  with exact show ?thesis by blast
qed

theorem empty_input_panics_witness:
  "length [''f''] = 1 \<and> input (quiet [] 4096) = Some [] \<and>
   fst (main (quiet [] 4096) \<lparr>dataShards = 4, parShards = 2, blockSize = 1024\<rparr> [''f''])
     = Panicked (IndexOutOfRange 0 0) \<and>
   distribution (snd (main (quiet [] 4096) \<lparr>dataShards = 4, parShards = 2, blockSize = 1024\<rparr>
     [''f''])) = []"
  using empty_input_panics [of "[''f'']" "quiet [] 4096"
      "\<lparr>dataShards = 4, parShards = 2, blockSize = 1024\<rparr>"]
  by (simp add: quiet_def)


section \<open>Placement of the shards\<close>

text \<open>
  C3 as the specification words it fails on a three-byte input with two data shards and
  one parity shard of one byte each. The arrangement generated for stripe 0 is \<open>[2, 0, 1]\<close> and the shards of that
  stripe are \<open>[1]\<close>, \<open>[2]\<close> and the parity shard \<open>[9]\<close>. Shard 0 would have to go to
  destination \<open>permutation[0] = 2\<close>; the program writes it to destination 1, and
  destination 2 receives shard \<open>permutation[2] = 1\<close>.
\<close>

theorem shard_to_permuted_destination_counterexample:
  "distribution (snd (main (quiet [1, 2, 3] 2) small [''f''])) ! 0 = [2, 0, 1] \<and>
   CodecSplit 0 [1, 2] \<in> set (trace (snd (main (quiet [1, 2, 3] 2) small [''f'']))) \<and>
   shards_of (quiet [1, 2, 3] 2) (2, 1) [1, 2] = [[1], [2], [9]] \<and>
   WriteDest 0 ([2, 0, 1] ! 0) ([[1], [2], [9]] ! 0) True
     \<notin> set (trace (snd (main (quiet [1, 2, 3] 2) small [''f'']))) \<and>
   WriteDest 0 1 ([[1], [2], [9]] ! 0) True
     \<in> set (trace (snd (main (quiet [1, 2, 3] 2) small [''f'']))) \<and>
   WriteDest 0 2 ([[1], [2], [9]] ! ([2, 0, 1] ! 2)) True
     \<in> set (trace (snd (main (quiet [1, 2, 3] 2) small [''f''])))"
  by code_simp

text \<open>
  C3 (amended). For every stripe \<open>s\<close> and every physical destination index \<open>i\<close>, the
  bytes written through the handle of destination file \<open>i\<close> are the bytes of shard
  \<open>permutation[i]\<close>, where \<open>permutation\<close> is the arrangement generated for stripe \<open>s\<close>
  and recorded in the ledger, and the shards are those the codec computed from the one
  buffer of stripe \<open>s\<close>; this holds for every write of every run, whatever its
  outcome. When the run returns normally, every stripe up to the last and every
  destination index below \<open>dataShards + parShards\<close> has such a write.
\<close>

theorem shards_follow_ledger:
  "(WriteDest s i bs ok \<in> set (trace (snd (main e cfg args))) \<longrightarrow>
      s < length (distribution (snd (main e cfg args))) \<and>
      i < length (distribution (snd (main e cfg args)) ! s) \<and>
      genRandomArr (draw e s) (wrap64 (dataShards cfg + parShards cfg))
        = Inr (distribution (snd (main e cfg args)) ! s) \<and>
      ok = (\<not> write_fail e s i) \<and>
      (\<exists>buf. CodecSplit s buf \<in> set (trace (snd (main e cfg args))) \<and>
         (\<forall>buf'. CodecSplit s buf' \<in> set (trace (snd (main e cfg args))) \<longrightarrow> buf' = buf) \<and>
         bs = shards_of e (nat (dataShards cfg), nat (parShards cfg)) buf
                ! (distribution (snd (main e cfg args)) ! s ! i))) \<and>
   (fst (main e cfg args) = Returned \<and> s \<le> stripeno (snd (main e cfg args)) \<and>
    i < nat (dataShards cfg + parShards cfg) \<longrightarrow>
      (\<exists>bs' ok'. WriteDest s i bs' ok' \<in> set (trace (snd (main e cfg args)))))"
proof (intro conjI impI)
  let ?st = "snd (main e cfg args)"
  let ?enc = "(nat (dataShards cfg), nat (parShards cfg))"
  assume w: "WriteDest s i bs ok \<in> set (trace ?st)"
  from main_sound [of e cfg args] obtain n where n: "sound_upto e cfg ?enc n ?st" ..
  from n w obtain buf where
    b: "s < length (distribution ?st)" "i < length (distribution ?st ! s)"
       "genRandomArr (draw e s) (wrap64 (dataShards cfg + parShards cfg))
          = Inr (distribution ?st ! s)"
       "ok = (\<not> write_fail e s i)"
       "CodecSplit s buf \<in> set (trace ?st)"
       "bs = shards_of e ?enc buf ! (distribution ?st ! s ! i)"
    unfolding sound_upto_def by blast
  from n b(5) have u: "\<forall>buf'. CodecSplit s buf' \<in> set (trace ?st) \<longrightarrow> buf' = buf"
    unfolding sound_upto_def by blast
  from b(1,2,3,4) show "s < length (distribution ?st)" "i < length (distribution ?st ! s)"
    "genRandomArr (draw e s) (wrap64 (dataShards cfg + parShards cfg))
          = Inr (distribution ?st ! s)" "ok = (\<not> write_fail e s i)"
    by simp_all
  from b(5,6) u show "\<exists>buf. CodecSplit s buf \<in> set (trace ?st) \<and>
         (\<forall>buf'. CodecSplit s buf' \<in> set (trace ?st) \<longrightarrow> buf' = buf) \<and>
         bs = shards_of e ?enc buf ! (distribution ?st ! s ! i)"
    by blast
next
  let ?st = "snd (main e cfg args)"
  assume a: "fst (main e cfg args) = Returned \<and> s \<le> stripeno ?st \<and>
             i < nat (dataShards cfg + parShards cfg)"
  from main_returned [of e cfg args] a obtain tr where
    T: "trace ?st = tr @ map (\<lambda>i. CloseDest i (stripeno ?st))
                       [0..<nat (dataShards cfg + parShards cfg)] @ [CloseInput]"
       "map fst (writes i tr) = [0..<Suc (stripeno ?st)]"
    by blast
  from a have "s \<in> set [0..<Suc (stripeno ?st)]" by auto
  with T(2) have "s \<in> fst ` set (writes i tr)" by (metis set_map)
  then obtain bs' ok' where "(s, bs', ok') \<in> set (writes i tr)" by auto
  then have "WriteDest s i bs' ok' \<in> set tr" by (simp add: writes_mem)
  then have "WriteDest s i bs' ok' \<in> set (trace ?st)" unfolding T(1) by simp
  then show "\<exists>bs' ok'. WriteDest s i bs' ok' \<in> set (trace ?st)" by blast
qed

theorem shards_follow_ledger_witness:
  "WriteDest 0 2 [2] True \<in> set (trace (snd (main (quiet [1, 2, 3] 2) small [''f'']))) \<and>
   fst (main (quiet [1, 2, 3] 2) small [''f'']) = Returned \<and> (1::nat) \<le> stripeno (snd (main (quiet [1, 2, 3] 2) small [''f''])) \<and>
   (0::nat) < nat (dataShards small + parShards small) \<and>
   distribution (snd (main (quiet [1, 2, 3] 2) small [''f''])) ! 0 = [2, 0, 1] \<and>
   (\<exists>buf. CodecSplit 0 buf \<in> set (trace (snd (main (quiet [1, 2, 3] 2) small [''f'']))) \<and>
      [2] = shards_of (quiet [1, 2, 3] 2) (nat (dataShards small), nat (parShards small)) buf
              ! (distribution (snd (main (quiet [1, 2, 3] 2) small [''f''])) ! 0 ! 2)) \<and>
   (\<exists>bs' ok'. WriteDest 1 0 bs' ok' \<in> set (trace (snd (main (quiet [1, 2, 3] 2) small [''f'']))))"
proof -
  have h: "WriteDest 0 2 [2] True \<in> set (trace (snd (main (quiet [1, 2, 3] 2) small [''f''])))"
    "fst (main (quiet [1, 2, 3] 2) small [''f'']) = Returned" "(1::nat) \<le> stripeno (snd (main (quiet [1, 2, 3] 2) small [''f'']))"
    "(0::nat) < nat (dataShards small + parShards small)"
    "distribution (snd (main (quiet [1, 2, 3] 2) small [''f''])) ! 0 = [2, 0, 1]"
    by code_simp+
  from h shards_follow_ledger [of 0 2 "[2]" True "quiet [1, 2, 3] 2" small "[''f'']"]
    shards_follow_ledger [of 1 0 "[]" True "quiet [1, 2, 3] 2" small "[''f'']"]
  show ?thesis by blast
qed

section \<open>Handles of the destination files\<close>

text \<open>
  C5. The specification has every destination file opened exactly once, kept open for
  the whole run and never opened again between stripes. The program does otherwise:
  \<open>os.OpenFile\<close> stands inside the loop over the stripes and overwrites \<open>of[i]\<close>, so
  a destination is opened again in every stripe, and the handle of an earlier stripe
  is never closed. With two data shards, one parity shard and a block size of 1, an
  input of three bytes makes two stripes and the run returns: destination 0 is opened
  in stripe 0 and in stripe 1, it is written in stripe 0 and then in stripe 1, the
  handle of stripe 1 is the only one closed and the handle of stripe 0 never is. An
  input of four bytes, a whole number of stripes, opens destination 0 in stripe 0 and
  in stripe 1 as well, and the run panics in the third pass with no handle closed.
\<close>

theorem destination_reopened_and_leaked:
  "fst (main (quiet [1, 2, 3] 2) small [''f'']) = Returned \<and>
   opened 0 (trace (snd (main (quiet [1, 2, 3] 2) small [''f'']))) = [0, 1] \<and>
   length (opened 0 (trace (snd (main (quiet [1, 2, 3] 2) small [''f''])))) \<noteq> 1 \<and>
   map fst (writes 0 (trace (snd (main (quiet [1, 2, 3] 2) small [''f''])))) = [0, 1] \<and>
   closed 0 (trace (snd (main (quiet [1, 2, 3] 2) small [''f'']))) = [1] \<and>
   CloseDest 0 0 \<notin> set (trace (snd (main (quiet [1, 2, 3] 2) small [''f'']))) \<and>
   fst (main (quiet [1, 2, 3, 4] 2) small [''f'']) = Panicked (IndexOutOfRange 2 2) \<and>
   opened 0 (trace (snd (main (quiet [1, 2, 3, 4] 2) small [''f'']))) = [0, 1] \<and>
   map fst (writes 0 (trace (snd (main (quiet [1, 2, 3, 4] 2) small [''f''])))) = [0, 1] \<and>
   closed 0 (trace (snd (main (quiet [1, 2, 3, 4] 2) small [''f'']))) = []"
  by code_simp


section \<open>Inputs of a whole number of stripes\<close>

text \<open>
  C1. For an input whose length is \<open>n\<close> times the stripe size \<open>k * blockSize\<close>, read
  without faults in full windows, the program writes exactly \<open>n\<close> stripes: every
  destination receives one shard of \<open>blockSize\<close> bytes for each of the stripes
  \<open>0, ..., n - 1\<close>. It does not terminate normally afterwards: the loop body runs once
  more on a read of 0 bytes and the ledger write \<open>distribution[n]\<close> panics, because the
  ledger has \<open>n\<close> entries.
\<close>

theorem exact_multiple_panics:
  assumes "length args = 1" "1 \<le> dataShards cfg" "0 \<le> parShards cfg"
      "dataShards cfg + parShards cfg \<le> 256" "1 \<le> blockSize cfg"
      "dataShards cfg * blockSize cfg + int (length content) < 2 ^ 63"
      "input e = Some content" "\<not> stat_fault e" "\<not> hash_fault e"
      "k = nat (dataShards cfg)" "m = nat (parShards cfg)" "per = nat (blockSize cfg)"
    and "\<forall>s. \<not> read_fault e s" "\<forall>s i. \<not> open_fail e s i" "\<forall>s. k * per \<le> chunk e s"
    and "length content = n * (k * per)"
  shows "fst (main e cfg args) = Panicked (IndexOutOfRange n n) \<and>
         stripeno (snd (main e cfg args)) = n \<and>
         (\<forall>i < k + m.
            map fst (writes i (trace (snd (main e cfg args)))) = [0..<n] \<and>
            (\<forall>w \<in> set (writes i (trace (snd (main e cfg args)))). length (fst (snd w)) = per))"
  using assms by (rule exact_run)

theorem exact_multiple_panics_witness:
  "length [1, 2 :: byte] = 1 * (2 * 1) \<and>
   fst (main (quiet [1, 2] 2) small [''f'']) = Panicked (IndexOutOfRange 1 1) \<and>
   stripeno (snd (main (quiet [1, 2] 2) small [''f''])) = 1 \<and>
   map fst (writes 0 (trace (snd (main (quiet [1, 2] 2) small [''f''])))) = [0..<1] \<and>
   trace (snd (main (quiet [1, 2] 2) small [''f''])) =
     [OpenInput, StatInput, HashPass, SeekStart, ReadInput 0 2, CodecSplit 0 [1, 2],
      OpenDest 0 0, WriteDest 0 0 [9] True, OpenDest 0 1, WriteDest 0 1 [1] True,
      OpenDest 0 2, WriteDest 0 2 [2] True, ReadInput 1 0, CodecSplit 1 [1, 2], CloseInput]"
proof -
  have t: "trace (snd (main (quiet [1, 2] 2) small [''f''])) =
     [OpenInput, StatInput, HashPass, SeekStart, ReadInput 0 2, CodecSplit 0 [1, 2],
      OpenDest 0 0, WriteDest 0 0 [9] True, OpenDest 0 1, WriteDest 0 1 [1] True,
      OpenDest 0 2, WriteDest 0 2 [2] True, ReadInput 1 0, CodecSplit 1 [1, 2], CloseInput]"
    by code_simp
  have h: "length [''f''] = 1" "1 \<le> dataShards small" "0 \<le> parShards small"
      "dataShards small + parShards small \<le> 256" "1 \<le> blockSize small"
      "dataShards small * blockSize small + int (length [1, 2 :: byte]) < 2 ^ 63"
      "input (quiet [1, 2] 2) = Some [1, 2]" "\<not> stat_fault (quiet [1, 2] 2)"
      "\<not> hash_fault (quiet [1, 2] 2)"
      "2 = nat (dataShards small)" "1 = nat (parShards small)" "1 = nat (blockSize small)"
      "\<forall>s. \<not> read_fault (quiet [1, 2] 2) s" "\<forall>s i. \<not> open_fail (quiet [1, 2] 2) s i"
      "\<forall>s. 2 * 1 \<le> chunk (quiet [1, 2] 2) s"
      "length [1, 2 :: byte] = 1 * (2 * 1)"
    by (simp_all add: quiet_def small_def)
  from exact_multiple_panics [OF h]
  have "fst (main (quiet [1, 2] 2) small [''f'']) = Panicked (IndexOutOfRange 1 1) \<and>
        stripeno (snd (main (quiet [1, 2] 2) small [''f''])) = 1 \<and>
        map fst (writes 0 (trace (snd (main (quiet [1, 2] 2) small [''f''])))) = [0..<1]"
    by simp
  with t show ?thesis by simp
qed

section \<open>The buffer of the final stripe\<close>

text \<open>
  C2. When the input is \<open>n \<ge> 1\<close> full stripes followed by \<open>r\<close> bytes (\<open>0 < r < k * blockSize\<close>),
  the buffer handed to the codec for the final stripe begins with the \<open>r\<close> bytes that
  were read, and every offset \<open>j\<close> at or beyond \<open>r\<close> still holds byte \<open>j\<close> of the stripe
  before: the buffer is allocated once, before the loop, and is not cleared between
  reads. The trailing region is zero only where the previous stripe was.
\<close>

theorem final_stripe_keeps_previous_bytes:
  assumes "length args = 1" "1 \<le> dataShards cfg" "0 \<le> parShards cfg"
      "dataShards cfg + parShards cfg \<le> 256" "1 \<le> blockSize cfg"
      "dataShards cfg * blockSize cfg + int (length content) < 2 ^ 63"
      "input e = Some content" "\<not> stat_fault e" "\<not> hash_fault e"
      "k = nat (dataShards cfg)" "m = nat (parShards cfg)" "per = nat (blockSize cfg)"
    and "\<forall>s. \<not> read_fault e s" "\<forall>s i. \<not> open_fail e s i" "\<forall>s. k * per \<le> chunk e s"
    and len: "length content = n * (k * per) + r" "0 < r" "r < k * per" and n: "0 < n"
  shows "fst (main e cfg args) = Returned \<and>
         stripeno (snd (main e cfg args)) = n \<and>
         ReadInput n r \<in> set (trace (snd (main e cfg args))) \<and>
         (\<exists>buf. CodecSplit n buf \<in> set (trace (snd (main e cfg args))) \<and>
            length buf = k * per \<and>
            take r buf = drop (n * (k * per)) content \<and>
            (\<forall>j. r \<le> j \<and> j < k * per \<longrightarrow> buf ! j = content ! ((n - 1) * (k * per) + j)))"
proof -
  let ?S = "k * per"
  let ?old = "take ?S (drop ((n - 1) * ?S) content)"
  let ?buf = "drop (n * ?S) content @ drop r ?old"
  from short_run [OF assms(1-18)] n have
    R: "fst (main e cfg args) = Returned" "stripeno (snd (main e cfg args)) = n"
       "ReadInput n r \<in> set (trace (snd (main e cfg args)))"
       "CodecSplit n ?buf \<in> set (trace (snd (main e cfg args)))"
    by simp_all
  from n have nS: "n * ?S = (n - 1) * ?S + ?S"
    by (metis Suc_diff_1 add.commute mult_Suc)
  have l1: "length (drop (n * ?S) content) = r" using len(1) by simp
  have l2: "length ?old = ?S" using len(1) nS by simp
  have lb: "length ?buf = ?S" using l1 l2 len(3) by simp
  have tk: "take r ?buf = drop (n * ?S) content" using l1 by simp
  have nth: "\<forall>j. r \<le> j \<and> j < ?S \<longrightarrow> ?buf ! j = content ! ((n - 1) * ?S + j)"
  proof (intro allI impI)
    fix j assume j: "r \<le> j \<and> j < ?S"
    then have "?buf ! j = drop r ?old ! (j - r)"
      using l1 by (simp add: nth_append)
    also have "\<dots> = ?old ! j" using j l2 by simp
    also have "\<dots> = content ! ((n - 1) * ?S + j)" using j len(1) nS by simp
    finally show "?buf ! j = content ! ((n - 1) * ?S + j)" .
  qed
  from R lb tk nth show ?thesis by blast
qed

theorem final_stripe_keeps_previous_bytes_witness:
  "length [1, 2, 3 :: byte] = 1 * (2 * 1) + 1 \<and>
   fst (main (quiet [1, 2, 3] 2) small [''f'']) = Returned \<and>
   ReadInput 1 1 \<in> set (trace (snd (main (quiet [1, 2, 3] 2) small [''f'']))) \<and>
   CodecSplit 1 [3, 2] \<in> set (trace (snd (main (quiet [1, 2, 3] 2) small [''f'']))) \<and>
   [3, 2 :: byte] ! 1 \<noteq> 0 \<and>
   (\<exists>buf. CodecSplit 1 buf \<in> set (trace (snd (main (quiet [1, 2, 3] 2) small [''f'']))) \<and>
      length buf = 2 * 1 \<and> take 1 buf = drop (1 * (2 * 1)) [1, 2, 3] \<and>
      buf ! 1 = [1, 2, 3 :: byte] ! ((1 - 1) * (2 * 1) + 1))"
proof -
  have c: "CodecSplit 1 [3, 2] \<in> set (trace (snd (main (quiet [1, 2, 3] 2) small [''f''])))"
    by code_simp
  have h: "length [''f''] = 1" "1 \<le> dataShards small" "0 \<le> parShards small"
      "dataShards small + parShards small \<le> 256" "1 \<le> blockSize small"
      "dataShards small * blockSize small + int (length [1, 2, 3 :: byte]) < 2 ^ 63"
      "input (quiet [1, 2, 3] 2) = Some [1, 2, 3]" "\<not> stat_fault (quiet [1, 2, 3] 2)"
      "\<not> hash_fault (quiet [1, 2, 3] 2)"
      "2 = nat (dataShards small)" "1 = nat (parShards small)" "1 = nat (blockSize small)"
      "\<forall>s. \<not> read_fault (quiet [1, 2, 3] 2) s" "\<forall>s i. \<not> open_fail (quiet [1, 2, 3] 2) s i"
      "\<forall>s. 2 * 1 \<le> chunk (quiet [1, 2, 3] 2) s"
      "length [1, 2, 3 :: byte] = 1 * (2 * 1) + 1" "(0::nat) < 1" "(1::nat) < 2 * 1" "(0::nat) < 1"
    by (simp_all add: quiet_def small_def)
  note T = final_stripe_keeps_previous_bytes [OF h]
  from T
  have "fst (main (quiet [1, 2, 3] 2) small [''f'']) = Returned \<and>
         stripeno (snd (main (quiet [1, 2, 3] 2) small [''f''])) = 1 \<and>
         ReadInput 1 1 \<in> set (trace (snd (main (quiet [1, 2, 3] 2) small [''f'']))) \<and>
         (\<exists>buf. CodecSplit 1 buf \<in> set (trace (snd (main (quiet [1, 2, 3] 2) small [''f'']))) \<and>
            length buf = 2 * 1 \<and>
            take 1 buf = drop (1 * (2 * 1)) [1, 2, 3] \<and>
            (\<forall>j. 1 \<le> j \<and> j < 2 * 1 \<longrightarrow> buf ! j = [1, 2, 3] ! ((1 - 1) * (2 * 1) + j)))"
    .
  then obtain buf where
    "fst (main (quiet [1, 2, 3] 2) small [''f'']) = Returned"
    "ReadInput 1 1 \<in> set (trace (snd (main (quiet [1, 2, 3] 2) small [''f''])))"
    "CodecSplit 1 buf \<in> set (trace (snd (main (quiet [1, 2, 3] 2) small [''f''])))"
    "length buf = 2 * 1" "take 1 buf = drop (1 * (2 * 1)) [1, 2, 3]"
    "\<forall>j. 1 \<le> j \<and> j < 2 * 1 \<longrightarrow> buf ! j = [1, 2, 3] ! ((1 - 1) * (2 * 1) + j)"
    by blast
  moreover from this(6) have "buf ! 1 = [1, 2, 3 :: byte] ! ((1 - 1) * (2 * 1) + 1)" by simp
  ultimately show ?thesis using c by (intro conjI exI [of _ buf]) simp_all
qed

section \<open>Writes that fail\<close>

text \<open>
  C4. A failed write does not end the run. The error of \<open>Write\<close> is dropped and line 148
  checks the error of \<open>OpenFile\<close> again, so in a run without read or open faults the
  program writes every stripe to every destination and returns normally (exit status
  0) although the write of stripe \<open>s0\<close> to destination \<open>i0\<close> failed.
\<close>

theorem failed_write_is_ignored:
  assumes "length args = 1" "1 \<le> dataShards cfg" "0 \<le> parShards cfg"
      "dataShards cfg + parShards cfg \<le> 256" "1 \<le> blockSize cfg"
      "dataShards cfg * blockSize cfg + int (length content) < 2 ^ 63"
      "input e = Some content" "\<not> stat_fault e" "\<not> hash_fault e"
      "k = nat (dataShards cfg)" "m = nat (parShards cfg)" "per = nat (blockSize cfg)"
    and "\<forall>s. \<not> read_fault e s" "\<forall>s i. \<not> open_fail e s i" "\<forall>s. k * per \<le> chunk e s"
    and "length content = n * (k * per) + r" "0 < r" "r < k * per"
    and fail: "write_fail e s0 i0" "s0 \<le> n" "i0 < k + m"
  shows "fst (main e cfg args) = Returned \<and>
         (\<exists>bs. WriteDest s0 i0 bs False \<in> set (trace (snd (main e cfg args)))) \<and>
         (\<forall>i < k + m. map fst (writes i (trace (snd (main e cfg args)))) = [0..<Suc n])"
proof -
  let ?tr = "trace (snd (main e cfg args))"
  from short_run [OF assms(1-18)] have
    R: "fst (main e cfg args) = Returned"
    and W: "\<forall>i < k + m.
            map fst (writes i ?tr) = [0..<Suc n] \<and>
            (\<forall>w \<in> set (writes i ?tr).
               length (fst (snd w)) = per \<and> snd (snd w) = (\<not> write_fail e (fst w) i))"
    by simp_all
  from W fail(3) have w0: "map fst (writes i0 ?tr) = [0..<Suc n]"
    "\<forall>w \<in> set (writes i0 ?tr). snd (snd w) = (\<not> write_fail e (fst w) i0)"
    by simp_all
  from fail(2) have "s0 \<in> set [0..<Suc n]" by auto
  with w0(1) have "s0 \<in> fst ` set (writes i0 ?tr)" by (metis set_map)
  then obtain bs ok where m: "(s0, bs, ok) \<in> set (writes i0 ?tr)" by auto
  with w0(2) fail(1) have "ok = False" by fastforce
  with m have "WriteDest s0 i0 bs False \<in> set ?tr" by (simp add: writes_mem)
  then have "\<exists>bs. WriteDest s0 i0 bs False \<in> set ?tr" ..
  with R W show ?thesis by simp
qed

theorem failed_write_is_ignored_witness:
  "write_fail ((quiet [1, 2, 3] 2)\<lparr>write_fail := \<lambda>s i. s = 0 \<and> i = 0\<rparr>) 0 0 \<and>
   fst (main ((quiet [1, 2, 3] 2)\<lparr>write_fail := \<lambda>s i. s = 0 \<and> i = 0\<rparr>) small [''f''])
     = Returned \<and>
   trace (snd (main ((quiet [1, 2, 3] 2)\<lparr>write_fail := \<lambda>s i. s = 0 \<and> i = 0\<rparr>) small
                 [''f''])) =
     [OpenInput, StatInput, HashPass, SeekStart, ReadInput 0 2, CodecSplit 0 [1, 2],
      OpenDest 0 0, WriteDest 0 0 [9] False, OpenDest 0 1, WriteDest 0 1 [1] True,
      OpenDest 0 2, WriteDest 0 2 [2] True, ReadInput 1 1, CodecSplit 1 [3, 2],
      OpenDest 1 0, WriteDest 1 0 [9] True, OpenDest 1 1, WriteDest 1 1 [3] True,
      OpenDest 1 2, WriteDest 1 2 [2] True, CloseDest 0 1, CloseDest 1 1, CloseDest 2 1,
      CloseInput] \<and>
   files (snd (main ((quiet [1, 2, 3] 2)\<lparr>write_fail := \<lambda>s i. s = 0 \<and> i = 0\<rparr>) small
                 [''f''])) 0 = Some [9] \<and>
   (\<exists>bs. WriteDest 0 0 bs False \<in>
      set (trace (snd (main ((quiet [1, 2, 3] 2)\<lparr>write_fail := \<lambda>s i. s = 0 \<and> i = 0\<rparr>) small
                        [''f'']))))"
proof -
  let ?e = "(quiet [1, 2, 3] 2)\<lparr>write_fail := \<lambda>s i. s = 0 \<and> i = 0\<rparr>"
  have t: "trace (snd (main ?e small [''f''])) =
     [OpenInput, StatInput, HashPass, SeekStart, ReadInput 0 2, CodecSplit 0 [1, 2],
      OpenDest 0 0, WriteDest 0 0 [9] False, OpenDest 0 1, WriteDest 0 1 [1] True,
      OpenDest 0 2, WriteDest 0 2 [2] True, ReadInput 1 1, CodecSplit 1 [3, 2],
      OpenDest 1 0, WriteDest 1 0 [9] True, OpenDest 1 1, WriteDest 1 1 [3] True,
      OpenDest 1 2, WriteDest 1 2 [2] True, CloseDest 0 1, CloseDest 1 1, CloseDest 2 1,
      CloseInput]"
    "files (snd (main ?e small [''f''])) 0 = Some [9]"
    by code_simp+
  have h: "length [''f''] = 1" "1 \<le> dataShards small" "0 \<le> parShards small"
      "dataShards small + parShards small \<le> 256" "1 \<le> blockSize small"
      "dataShards small * blockSize small + int (length [1, 2, 3 :: byte]) < 2 ^ 63"
      "input ?e = Some [1, 2, 3]" "\<not> stat_fault ?e" "\<not> hash_fault ?e"
      "2 = nat (dataShards small)" "1 = nat (parShards small)" "1 = nat (blockSize small)"
      "\<forall>s. \<not> read_fault ?e s" "\<forall>s i. \<not> open_fail ?e s i"
      "\<forall>s. 2 * 1 \<le> chunk ?e s"
      "length [1, 2, 3 :: byte] = 1 * (2 * 1) + 1" "(0::nat) < 1" "(1::nat) < 2 * 1"
      "write_fail ?e 0 0" "(0::nat) \<le> 1" "(0::nat) < 2 + 1"
    by (simp_all add: quiet_def small_def)
  from failed_write_is_ignored [OF h] h(19) t show ?thesis by simp
qed

section \<open>The run on 10 000 bytes\<close>

lemma h8:
  "length [''f''] = 1" "1 \<le> dataShards defaults" "0 \<le> parShards defaults"
      "dataShards defaults + parShards defaults \<le> 256" "1 \<le> blockSize defaults"
      "dataShards defaults * blockSize defaults + int (length (replicate 10000 (1::byte))) < 2 ^ 63"
      "input (quiet (replicate 10000 1) 4096) = Some (replicate 10000 1)"
      "\<not> stat_fault (quiet (replicate 10000 1) 4096)" "\<not> hash_fault (quiet (replicate 10000 1) 4096)"
      "4 = nat (dataShards defaults)" "2 = nat (parShards defaults)"
      "1024 = nat (blockSize defaults)"
      "\<forall>s. \<not> read_fault (quiet (replicate 10000 1) 4096) s"
      "\<forall>s i. \<not> open_fail (quiet (replicate 10000 1) 4096) s i"
      "\<forall>s. 4 * 1024 \<le> chunk (quiet (replicate 10000 1) 4096) s"
      "length (replicate 10000 (1::byte)) = 2 * (4 * 1024) + 1808" "(0::nat) < 1808"
      "(1808::nat) < 4 * 1024"
    by (simp_all add: quiet_def defaults_def)

lemma buf8: "drop (2 * (4 * 1024)) (replicate 10000 (1::byte)) @
             drop 1808 (if (2::nat) = 0 then replicate (4 * 1024) 0
                        else take (4 * 1024) (drop ((2 - 1) * (4 * 1024)) (replicate 10000 1)))
             = replicate 4096 1"
proof -
  have a: "drop (2 * (4 * 1024)) (replicate 10000 (1::byte)) = replicate 1808 1"
    by simp
  have b: "take (4 * 1024) (drop ((2 - 1) * (4 * 1024)) (replicate 10000 (1::byte))) = replicate 4096 1"
    by simp
  have c: "drop 1808 (replicate 4096 (1::byte)) = replicate 2288 1" by simp
  have d: "replicate 1808 (1::byte) @ replicate 2288 1 = replicate (1808 + 2288) 1"
    by (rule replicate_add [symmetric])
  show ?thesis unfolding a using b c d by simp
qed

lemma three_writes: "map fst ws = [0..<Suc 2] \<Longrightarrow> length ws = 3"
proof -
  assume "map fst ws = [0..<Suc 2]"
  then have "length (map fst ws) = length [0..<Suc 2]" by simp
  then show ?thesis by simp
qed

text \<open>
  C8. A 10 000-byte input with the default flags (4 data shards, 2 parity shards, block
  size 1024), here with every byte equal to 1: the run returns after 3 stripes, the
  last read delivers 1808 bytes, exactly the destinations 0 to 5 exist and each holds
  3072 bytes. The buffer of the last stripe holds no zero padding: its 2288 trailing
  bytes are those left from stripe 1.
\<close>

theorem ten_thousand_bytes_run:
  "fst (main (quiet (replicate 10000 1) 4096) defaults [''f'']) = Returned \<and>
   stripeno (snd (main (quiet (replicate 10000 1) 4096) defaults [''f''])) = 2 \<and>
   ReadInput 2 1808 \<in> set (trace (snd (main (quiet (replicate 10000 1) 4096) defaults [''f'']))) \<and>
   CodecSplit 2 (replicate 4096 1)
     \<in> set (trace (snd (main (quiet (replicate 10000 1) 4096) defaults [''f'']))) \<and>
   {i. files (snd (main (quiet (replicate 10000 1) 4096) defaults [''f''])) i \<noteq> None} = {0..<6} \<and>
   list_all (\<lambda>i. map_option length
                    (files (snd (main (quiet (replicate 10000 1) 4096) defaults [''f''])) i)
                  = Some 3072) [0..<6]"
proof -
  let ?e = "quiet (replicate 10000 1) 4096"
  let ?st = "snd (main ?e defaults [''f''])"
  note R = short_run [OF h8]
  note r1 = R [THEN conjunct1]
  note r2 = R [THEN conjunct2, THEN conjunct1]
  note r3 = R [THEN conjunct2, THEN conjunct2, THEN conjunct1]
  note r4 = R [THEN conjunct2, THEN conjunct2, THEN conjunct2, THEN conjunct1, unfolded buf8]
  note out = R [THEN conjunct2, THEN conjunct2, THEN conjunct2, THEN conjunct2, THEN conjunct1]
  note inn = R [THEN conjunct2, THEN conjunct2, THEN conjunct2, THEN conjunct2, THEN conjunct2]
  have nofail: "\<And>s i. \<not> write_fail ?e s i" and ex: "\<And>i. existing ?e i = None"
    by (simp_all add: quiet_def)
  have sz: "\<And>i. i < 6 \<Longrightarrow> files ?st i = Some (appended i (trace ?st)) \<and>
              length (appended i (trace ?st)) = 3072"
  proof -
    fix i :: nat assume "i < 6"
    then have "i < 4 + 2" by simp
    from inn [rule_format, OF this] have i: "map fst (writes i (trace ?st)) = [0..<Suc 2]"
      "\<forall>w \<in> set (writes i (trace ?st)).
               length (fst (snd w)) = 1024 \<and> snd (snd w) = (\<not> write_fail ?e (fst w) i)"
      "files ?st i =
              Some ((case existing ?e i of None \<Rightarrow> [] | Some c \<Rightarrow> c) @ appended i (trace ?st))"
      by blast+
    from three_writes [OF i(1)] have l: "length (writes i (trace ?st)) = 3" .
    from i(2) have "\<forall>w \<in> set (writes i (trace ?st)). length (fst (snd w)) = 1024 \<and> snd (snd w)"
      by (simp add: nofail)
    from appended_length [OF this] l have "length (appended i (trace ?st)) = 3072" by simp
    moreover from i(3) have "files ?st i = Some (appended i (trace ?st))"
      by (simp add: ex)
    ultimately show "files ?st i = Some (appended i (trace ?st)) \<and>
              length (appended i (trace ?st)) = 3072" by simp
  qed
  have r5: "{i. files ?st i \<noteq> None} = {0..<6}"
  proof (intro set_eqI iffI)
    fix i assume a: "i \<in> {i. files ?st i \<noteq> None}"
    have "i < 6"
    proof (rule ccontr)
      assume "\<not> i < 6"
      then have "\<not> i < 4 + 2" by simp
      from out [rule_format, OF this] have "files ?st i = None" by (simp add: ex)
      with a show False by simp
    qed
    then show "i \<in> {0..<6}" by simp
  next
    fix i :: nat assume "i \<in> {0..<6}"
    then have "i < 6" by simp
    from sz [OF this] show "i \<in> {i. files ?st i \<noteq> None}" by simp
  qed
  have r6: "list_all (\<lambda>i. map_option length (files ?st i) = Some 3072) [0..<6]"
    unfolding list_all_iff
  proof
    fix i :: nat assume "i \<in> set [0..<6]"
    then have "i < 6" by simp
    from sz [OF this] show "map_option length (files ?st i) = Some 3072" by simp
  qed
  from r1 r2 r3 r4 r5 r6 show ?thesis by (intro conjI)
qed

section \<open>Short reads\<close>

text \<open>
  C10. There is a behaviour of the reader, a read that delivers 1 byte of a 6-byte input
  without error where the stripe size is 2, under which the program takes the first
  stripe for the last one: it returns normally after one stripe, with 5 bytes of the
  input unread and one of three ledger entries filled.
\<close>

theorem short_read_ends_run:
  "\<exists>e cfg args content.
     input e = Some content \<and> \<not> read_fault e 0 \<and>
     0 < chunk e 0 \<and> int (chunk e 0) < dataShards cfg * blockSize cfg \<and>
     chunk e 0 < length content \<and>
     fst (main e cfg args) = Returned \<and>
     stripeno (snd (main e cfg args)) = 0 \<and>
     length (distribution (snd (main e cfg args))) = 3 \<and>
     rest (snd (main e cfg args)) = drop (chunk e 0) content \<and>
     rest (snd (main e cfg args)) \<noteq> [] \<and>
     trace (snd (main e cfg args)) =
       [OpenInput, StatInput, HashPass, SeekStart, ReadInput 0 (chunk e 0),
        CodecSplit 0 (take (chunk e 0) content @ [0]),
        OpenDest 0 0, WriteDest 0 0 [9] True, OpenDest 0 1, WriteDest 0 1 [1] True,
        OpenDest 0 2, WriteDest 0 2 [0] True, CloseDest 0 0, CloseDest 1 0, CloseDest 2 0,
        CloseInput]"
proof -
  have "input (quiet [1, 2, 3, 4, 5, 6] 1) = Some [1, 2, 3, 4, 5, 6] \<and>
     \<not> read_fault (quiet [1, 2, 3, 4, 5, 6] 1) 0 \<and>
     0 < chunk (quiet [1, 2, 3, 4, 5, 6] 1) 0 \<and>
     int (chunk (quiet [1, 2, 3, 4, 5, 6] 1) 0) < dataShards small * blockSize small \<and>
     chunk (quiet [1, 2, 3, 4, 5, 6] 1) 0 < length [1, 2, 3, 4, 5, 6 :: byte]"
    by (simp add: quiet_def small_def)
  moreover have "fst (main (quiet [1, 2, 3, 4, 5, 6] 1) small [''f'']) = Returned"
    "stripeno (snd (main (quiet [1, 2, 3, 4, 5, 6] 1) small [''f''])) = 0"
    "length (distribution (snd (main (quiet [1, 2, 3, 4, 5, 6] 1) small [''f'']))) = 3"
    "rest (snd (main (quiet [1, 2, 3, 4, 5, 6] 1) small [''f''])) =
       drop (chunk (quiet [1, 2, 3, 4, 5, 6] 1) 0) [1, 2, 3, 4, 5, 6]"
    "rest (snd (main (quiet [1, 2, 3, 4, 5, 6] 1) small [''f''])) \<noteq> []"
    "trace (snd (main (quiet [1, 2, 3, 4, 5, 6] 1) small [''f''])) =
       [OpenInput, StatInput, HashPass, SeekStart, ReadInput 0 (chunk (quiet [1, 2, 3, 4, 5, 6] 1) 0),
        CodecSplit 0 (take (chunk (quiet [1, 2, 3, 4, 5, 6] 1) 0) [1, 2, 3, 4, 5, 6] @ [0]),
        OpenDest 0 0, WriteDest 0 0 [9] True, OpenDest 0 1, WriteDest 0 1 [1] True,
        OpenDest 0 2, WriteDest 0 2 [0] True, CloseDest 0 0, CloseDest 1 0, CloseDest 2 0,
        CloseInput]"
    by code_simp+
  ultimately show ?thesis by blast
qed

end
